theory Spec2Isabelle
  imports Main
begin

section \<open>Python string operations used by tutorial.py\<close>

text \<open>
  A string is a list of characters, and a character stands for one code point of the
  Python string; the characters of the model are the code points below 256. The
  operations below are the ones the script calls on \<open>str\<close> values: \<open>startswith\<close>,
  \<open>split(",")\<close>, \<open>strip()\<close>, \<open>replace(old, "")\<close>, slicing \<open>s[n:]\<close> and the
  \<open>in\<close> test for substrings.
\<close>

definition startswith :: "string \<Rightarrow> string \<Rightarrow> bool" where
  "startswith s p = (take (length p) s = p)"

text \<open>\<open>value.split(",")\<close>: the pieces between the commas; never an empty list.\<close>

fun split_on :: "char \<Rightarrow> string \<Rightarrow> string list" where
  "split_on c [] = [[]]"
| "split_on c (x # xs) =
     (if x = c then [] # split_on c xs
      else (case split_on c xs of
              [] \<Rightarrow> [[x]]
            | w # ws \<Rightarrow> (x # w) # ws))"

text \<open>
  \<open>x.strip()\<close> removes leading and trailing whitespace, that is, the characters for
  which \<open>str.isspace\<close> holds. Among the code points below 256 these are tab, line
  feed, vertical tab, form feed, carriage return (9 to 13), the four separators 0x1C to
  0x1F, the space, the next-line control U+0085 and the no-break space U+00A0.
\<close>

definition is_space :: "char \<Rightarrow> bool" where
  "is_space c = (of_char c \<in> {9::nat, 10, 11, 12, 13, 28, 29, 30, 31, 32, 133, 160})"

definition strip :: "string \<Rightarrow> string" where
  "strip s = rev (dropWhile is_space (rev (dropWhile is_space s)))"

section \<open>Collection aliases: get\_collections\<close>

text \<open>The list \<open>[x.strip() for x in value.split(",")]\<close> the loop runs over.\<close>

definition items_of :: "string \<Rightarrow> string list" where
  "items_of v = map strip (split_on CHR '','' v)"

text \<open>
  \<open>config.has_option("collections", item)\<close> and \<open>config.get("collections", item)\<close>
  read one table of the parsed configuration. The table is the map \<open>collections\<close>:
  \<open>collections cfg item = Some v\<close> when \<open>has_option\<close> answers true and \<open>get\<close>
  returns \<open>v\<close> (the parser's own option-name normalisation is part of the map).
\<close>

record config =
  collections :: "string \<rightharpoonup> string"

text \<open>
  The body of the \<open>for\<close> loop of \<open>get_collections\<close>, with the recursive call as a
  parameter: an alias is expanded by the call and its result spliced in with
  \<open>results.extend\<close>, any other item is appended as it is. A recursive call that does not
  return makes the whole loop not return.
\<close>

fun collect_items ::
  "(string \<Rightarrow> string list option) \<Rightarrow> config \<Rightarrow> string list \<Rightarrow> string list \<Rightarrow> string list option"
where
  "collect_items rec_call cfg [] results = Some results"
| "collect_items rec_call cfg (item # items) results =
     (case collections cfg item of
        Some v \<Rightarrow>
          (case rec_call v of
             None \<Rightarrow> None
           | Some sub \<Rightarrow> collect_items rec_call cfg items (results @ sub))
      | None \<Rightarrow> collect_items rec_call cfg items (results @ [item]))"

text \<open>
  \<open>get_collections\<close> recurses on the value of every alias it meets and has no other
  stopping condition, so the recursion depth is unbounded on some tables. The first
  argument bounds the depth of nested calls: \<open>None\<close> means that the call does not
  return within that depth.
\<close>

fun get_collections :: "nat \<Rightarrow> config \<Rightarrow> string \<Rightarrow> string list option" where
  "get_collections 0 cfg v = None"
| "get_collections (Suc n) cfg v =
     collect_items (get_collections n cfg) cfg (items_of v) []"

text \<open>
  What one loop iteration contributes to \<open>results\<close>: the expansion of an alias, or
  the item itself.
\<close>

definition expand_item ::
  "(string \<Rightarrow> string list option) \<Rightarrow> config \<Rightarrow> string \<Rightarrow> string list option" where
  "expand_item f cfg item = (case collections cfg item of Some v \<Rightarrow> f v | None \<Rightarrow> Some [item])"

text \<open>
  \<open>alias_ref cfg a b\<close>: the alias \<open>a\<close> mentions the alias \<open>b\<close> in its value, so that
  expanding \<open>a\<close> calls \<open>get_collections\<close> on the value of \<open>b\<close>. An alias is cyclic
  when the transitive closure of this relation relates it to itself.
\<close>

definition alias_ref :: "config \<Rightarrow> string \<Rightarrow> string \<Rightarrow> bool" where
  "alias_ref cfg a b =
     (\<exists>v. collections cfg a = Some v \<and> b \<in> set (items_of v) \<and> collections cfg b \<noteq> None)"


section \<open>The file system\<close>

text \<open>
  The file system as the script sees it: the finitely many paths that exist, keyed by the
  path string the script passes to \<open>os\<close>. A directory carries what \<open>os.listdir\<close> returns for it
  (\<open>None\<close>: \<open>listdir\<close> raises \<open>OSError\<close>), a file what
  \<open>open(path, "r").readline()\<close> returns (\<open>None\<close>: \<open>open\<close> raises
  \<open>IOError\<close>).
\<close>

datatype node = File "string option" | Dir "string list option"

type_synonym filesystem = "(string \<times> node) list"

datatype exn = OSError | RequestFailed

definition path_exists :: "filesystem \<Rightarrow> string \<Rightarrow> bool" where
  "path_exists fs p = (map_of fs p \<noteq> None)"

definition isdir :: "filesystem \<Rightarrow> string \<Rightarrow> bool" where
  "isdir fs p = (case map_of fs p of Some (Dir _) \<Rightarrow> True | _ \<Rightarrow> False)"

definition listdir :: "filesystem \<Rightarrow> string \<Rightarrow> exn + string list" where
  "listdir fs p = (case map_of fs p of Some (Dir (Some names)) \<Rightarrow> Inr names | _ \<Rightarrow> Inl OSError)"

definition readline :: "filesystem \<Rightarrow> string \<Rightarrow> string option" where
  "readline fs p = (case map_of fs p of Some (File (Some line)) \<Rightarrow> Some line | _ \<Rightarrow> None)"

text \<open>\<open>os.path.join(a, b)\<close> on POSIX, for two components.\<close>

definition join :: "string \<Rightarrow> string \<Rightarrow> string" where
  "join a b =
     (if startswith b ''/'' then b
      else if a = [] \<or> last a = CHR ''/'' then a @ b
      else a @ ''/'' @ b)"

text \<open>The conversion \<open>%d\<close> of a non-negative integer.\<close>

definition digit :: "nat \<Rightarrow> char" where
  "digit d = char_of (48 + d)"

fun decimal :: "nat \<Rightarrow> string" where
  "decimal n = (if n < 10 then [digit n] else decimal (n div 10) @ [digit (n mod 10)])"

declare decimal.simps [simp del]

section \<open>get\_tutorial\_dir\<close>

text \<open>
  The \<open>while\<close> loop of \<open>get_tutorial_dir\<close>, on its two variables \<open>postfix\<close> and
  \<open>trial_dir\<close>. It ends on every file system: the names tried are pairwise distinct
  and only finitely many paths exist.
\<close>

function trial_loop :: "filesystem \<Rightarrow> string \<Rightarrow> nat \<Rightarrow> string \<Rightarrow> string" where
  "trial_loop fs base_dir postfix trial_dir =
     (if path_exists fs trial_dir
      then trial_loop fs base_dir (postfix + 1) (base_dir @ ''.'' @ decimal (postfix + 1))
      else trial_dir)"
  by pat_completeness auto
termination
proof -
  have digit_inj: "d = e" if "digit d = digit e" "d < 10" "e < 10" for d e
  proof -
    from that(1) have "of_char (digit d) = (of_char (digit e) :: nat)" by simp
    with that(2,3) show ?thesis by (simp add: digit_def)
  qed
  have len1: "length (decimal n) = 1 \<longleftrightarrow> n < 10" for n
    by (subst decimal.simps, cases "n div 10 < 10"; subst decimal.simps) auto
  have dec_inj: "decimal n = decimal m \<Longrightarrow> n = m" for n m
  proof (induction n arbitrary: m rule: decimal.induct)
    case (1 n)
    show ?case
    proof (cases "n < 10")
      case True
      then have "length (decimal m) = 1" using "1.prems" len1 [of n] by simp
      then have m: "m < 10" using len1 [of m] by simp
      then have "digit n = digit m" using "1.prems" True
        by (simp add: decimal.simps [of n] decimal.simps [of m])
      then show ?thesis using True m by (rule digit_inj)
    next
      case False
      then have "length (decimal m) \<noteq> 1" using "1.prems" len1 [of n] by simp
      then have m: "\<not> m < 10" using len1 [of m] by simp
      from "1.prems" False m
      have eq: "decimal (n div 10) @ [digit (n mod 10)] = decimal (m div 10) @ [digit (m mod 10)]"
        by (simp add: decimal.simps [of n] decimal.simps [of m])
      then have "n div 10 = m div 10" using "1.IH" [OF False] by simp
      moreover have "n mod 10 = m mod 10" using eq by (auto intro: digit_inj)
      ultimately show ?thesis by (metis div_mult_mod_eq)
    qed
  qed
  let ?later = "\<lambda>fs base p. {j. p < j \<and> path_exists fs (base @ ''.'' @ decimal j)}"
  have fin: "finite (?later fs base p)" for fs :: filesystem and base p
  proof -
    have "inj (\<lambda>j. base @ ''.'' @ decimal j)"
      by (rule injI) (simp add: dec_inj)
    then have "finite ((\<lambda>j. base @ ''.'' @ decimal j) -` dom (map_of fs))"
      by (intro finite_vimageI) (simp_all add: finite_dom_map_of)
    moreover have "?later fs base p \<subseteq> (\<lambda>j. base @ ''.'' @ decimal j) -` dom (map_of fs)"
      by (auto simp: path_exists_def)
    ultimately show ?thesis by (rule rev_finite_subset)
  qed
  show ?thesis
  proof (relation "measure (\<lambda>(fs, base, p, t).
      2 * card {j. p < j \<and> path_exists fs (base @ ''.'' @ decimal j)}
      + (if path_exists fs t then 1 else 0))")
    show "wf (measure (\<lambda>(fs, base, p, t).
      2 * card {j. p < j \<and> path_exists fs (base @ ''.'' @ decimal j)}
      + (if path_exists fs t then 1 else 0)))" by simp
  next
    fix fs :: filesystem and base_dir :: string and postfix :: nat and trial_dir :: string
    assume ex: "path_exists fs trial_dir"
    let ?next = "base_dir @ ''.'' @ decimal (postfix + 1)"
    have sub: "?later fs base_dir (postfix + 1) \<subseteq> ?later fs base_dir postfix" by auto
    show "((fs, base_dir, postfix + 1, ?next), (fs, base_dir, postfix, trial_dir))
        \<in> measure (\<lambda>(fs, base, p, t).
      2 * card {j. p < j \<and> path_exists fs (base @ ''.'' @ decimal j)}
      + (if path_exists fs t then 1 else 0))"
    proof (cases "path_exists fs ?next")
      case True
      then have "postfix + 1 \<in> ?later fs base_dir postfix" by simp
      moreover have "postfix + 1 \<notin> ?later fs base_dir (postfix + 1)" by simp
      ultimately have "?later fs base_dir (postfix + 1) \<subset> ?later fs base_dir postfix"
        using sub by blast
      then have "card (?later fs base_dir (postfix + 1)) < card (?later fs base_dir postfix)"
        by (intro psubset_card_mono fin)
      then show ?thesis using ex True by simp
    next
      case False
      have "card (?later fs base_dir (postfix + 1)) \<le> card (?later fs base_dir postfix)"
        by (intro card_mono fin sub)
      then show ?thesis using ex False by simp
    qed
  qed
qed

declare trial_loop.simps [simp del]

definition get_tutorial_dir :: "filesystem \<Rightarrow> string \<Rightarrow> string \<times> string" where
  "get_tutorial_dir fs tutorial =
     (let tutorial = (if \<not> startswith tutorial ''tutorial-'' then ''tutorial-'' @ tutorial
                      else tutorial);
          base_dir = join ''.'' tutorial
      in (base_dir, trial_loop fs base_dir 0 base_dir))"

section \<open>The remote API\<close>

text \<open>
  A repository object and a branch object of the JSON arrays the API returns, with the
  keys the script reads; \<open>description\<close> may be JSON \<open>null\<close>.
\<close>

record repo =
  repo_name :: string
  repo_description :: "string option"
  repo_url :: string
  repo_branches_url :: string

record branch =
  branch_name :: string

text \<open>
  What \<open>urllib.request.urlopen(url)\<close> followed by \<open>json.load\<close> gives:
  \<open>HTTPError\<close> when \<open>urlopen\<close> raises \<open>urllib.error.HTTPError\<close>, \<open>Failure\<close>
  when another exception is raised (by \<open>urlopen\<close> or while decoding the body), and
  otherwise the decoded body with the value of the \<open>Link\<close> response header
  (\<open>None\<close> when the response has none).
\<close>

datatype 'a http_result = HTTPError | Failure | Response 'a "string option"

text \<open>
  What \<open>shutil.copytree(src, dst)\<close> does on a file system: it succeeds, raises
  \<open>shutil.Error\<close>, or raises another exception (for instance when \<open>dst\<close> exists);
  each time with the file system it leaves behind.
\<close>

datatype copy_result = Copied filesystem | ShutilError filesystem | CopyFailed filesystem

text \<open>
  The world outside the script. \<open>repos_at\<close> and \<open>branches_at\<close> answer the two
  kinds of API request. \<open>copytree fs src dst\<close> is \<open>shutil.copytree\<close>.
  \<open>get_repo fs repo_url location branch\<close> stands for the function \<open>get_repo\<close>
  (download of the tarball and extraction), which catches every exception itself: it
  returns the extracted path or \<open>None\<close>, and the file system it leaves.
  \<open>run_setup fs dir\<close> is the effect of the \<open>setup\<close> script that \<open>initialize\<close>
  runs through \<open>os.system\<close>.
\<close>

record world =
  repos_at :: "string \<Rightarrow> repo list http_result"
  branches_at :: "string \<Rightarrow> branch list http_result"
  copytree :: "filesystem \<Rightarrow> string \<Rightarrow> string \<Rightarrow> copy_result"
  get_repo :: "filesystem \<Rightarrow> string \<Rightarrow> string \<Rightarrow> string \<Rightarrow> string option \<times> filesystem"
  run_setup :: "filesystem \<Rightarrow> string \<Rightarrow> filesystem"

text \<open>\<open>needle in s\<close> for strings.\<close>

fun contains :: "string \<Rightarrow> string \<Rightarrow> bool" where
  "contains [] needle = (needle = [])"
| "contains (c # cs) needle = (startswith (c # cs) needle \<or> contains cs needle)"

text \<open>\<open>sep.join(items)\<close>.\<close>

fun join_with :: "string \<Rightarrow> string list \<Rightarrow> string" where
  "join_with sep [] = []"
| "join_with sep [x] = x"
| "join_with sep (x # y # ys) = x @ sep @ join_with sep (y # ys)"

definition OAuthClient_clientid :: string where
  "OAuthClient_clientid = ''daf652bf17f603644de5''"

definition OAuthClient_secret :: string where
  "OAuthClient_secret = ''8041808c74efe3090359b9c353a9d87e3e1d6c8f''"

text \<open>
  \<open>params[key] = value\<close> on a dictionary kept in insertion order: the value of a key
  already there is replaced in place, a new key is added at the end.
\<close>

definition dict_set :: "string \<Rightarrow> string \<Rightarrow> (string \<times> string) list \<Rightarrow> (string \<times> string) list" where
  "dict_set key val params =
     (if key \<in> fst ` set params
      then map (\<lambda>(k, v). if k = key then (k, val) else (k, v)) params
      else params @ [(key, val)])"

text \<open>
  \<open>githuburl(path, **params)\<close>; \<open>params\<close> are the keyword arguments in the order
  given, in which the two credentials are then set.
\<close>

definition githuburl :: "string \<Rightarrow> (string \<times> string) list \<Rightarrow> string" where
  "githuburl path params =
     (let path = (if \<not> contains path ''://'' then ''https://api.github.com'' @ path else path);
          params = dict_set ''client_id'' OAuthClient_clientid params;
          params = dict_set ''client_secret'' OAuthClient_secret params
      in path @ ''?'' @ join_with ''&'' (map (\<lambda>(k, v). k @ ''='' @ v) params))"

text \<open>
  \<open>s.replace(old, "")\<close>: every occurrence of \<open>old\<close> is removed, scanning from the
  left; an empty \<open>old\<close> leaves the string as it is.
\<close>

function replace_empty :: "string \<Rightarrow> string \<Rightarrow> string" where
  "replace_empty s old =
     (if old = [] \<or> s = [] then s
      else if startswith s old then replace_empty (drop (length old) s) old
      else hd s # replace_empty (tl s) old)"
  by pat_completeness auto
termination
  by (relation "measure (\<lambda>(s, old). length s)") (auto simp: neq_Nil_conv)

declare replace_empty.simps [simp del]

section \<open>The Link header\<close>

text \<open>
  One match of the regular expression \<open><([^>]+)>; rel="([^"]+)",* *\<close> at the start of
  \<open>s\<close>: the two groups and the input left after the match. Each of the two groups is a
  longest run of characters other than its closing delimiter, which must follow, so the
  match is found without backtracking; the commas and spaces at the end are taken
  greedily.
\<close>

definition dquote :: char where
  "dquote = CHR 0x22"

definition match_link :: "string \<Rightarrow> (string \<times> string \<times> string) option" where
  "match_link s =
     (case s of
        [] \<Rightarrow> None
      | c # s1 \<Rightarrow>
          if c \<noteq> CHR ''<'' then None
          else
            let link = takeWhile (\<lambda>c. c \<noteq> CHR ''>'') s1;
                s2 = dropWhile (\<lambda>c. c \<noteq> CHR ''>'') s1
            in if link = [] \<or> \<not> startswith s2 (''>; rel='' @ [dquote]) then None
               else
                 let s3 = drop 8 s2;
                     rel = takeWhile (\<lambda>c. c \<noteq> dquote) s3;
                     s4 = dropWhile (\<lambda>c. c \<noteq> dquote) s3
                 in if rel = [] \<or> s4 = [] then None
                    else Some (link, rel,
                           dropWhile (\<lambda>c. c = CHR '' '') (dropWhile (\<lambda>c. c = CHR '','') (tl s4))))"

text \<open>
  \<open>rx.finditer(header)\<close>: the matches from left to right, each search starting where
  the previous match ended.
\<close>

function finditer :: "string \<Rightarrow> (string \<times> string) list" where
  "finditer s =
     (if s = [] then []
      else (case match_link s of
              None \<Rightarrow> finditer (tl s)
            | Some (link, rel, rest) \<Rightarrow> (link, rel) # finditer rest))"
  by pat_completeness auto
termination
proof (relation "measure length")
  show "wf (measure length)" by simp
next
  fix s :: string
  assume "s \<noteq> []"
  then show "(tl s, s) \<in> measure length" by (cases s) simp_all
next
  fix s :: string and x2 link y rel rest
  assume "s \<noteq> []" and m: "match_link s = Some x2" and "(link, y) = x2" and "(rel, rest) = y"
  then have "match_link s = Some (link, rel, rest)" by simp
  then obtain c s1 s4 where s: "s = c # s1"
    and rest: "rest = dropWhile (\<lambda>c. c = CHR '' '') (dropWhile (\<lambda>c. c = CHR '','') (tl s4))"
    and s4: "s4 = dropWhile (\<lambda>c. c \<noteq> dquote) (drop 8 (dropWhile (\<lambda>c. c \<noteq> CHR ''>'') s1))"
    by (cases s) (auto simp: match_link_def Let_def split: if_splits)
  have "length rest \<le> length (tl s4)"
    unfolding rest by (meson length_dropWhile_le le_trans)
  also have "\<dots> \<le> length s4" by simp
  also have "\<dots> \<le> length (drop 8 (dropWhile (\<lambda>c. c \<noteq> CHR ''>'') s1))"
    unfolding s4 by (rule length_dropWhile_le)
  also have "\<dots> \<le> length (dropWhile (\<lambda>c. c \<noteq> CHR ''>'') s1)" by simp
  also have "\<dots> \<le> length s1" by (rule length_dropWhile_le)
  finally show "(rest, s) \<in> measure length" using s by simp
qed

declare finditer.simps [simp del]

text \<open>
  The loop over the matches: \<open>nexturi\<close> starts as \<open>None\<close> and is set by every match
  whose relation is \<open>next\<close>.
\<close>

definition next_link :: "string \<Rightarrow> string option" where
  "next_link header =
     foldl (\<lambda>nexturi (link, rel). if rel = ''next'' then Some link else nexturi)
       None (finditer header)"

section \<open>get\_tutorials\<close>

text \<open>The settings holder that \<open>connect_info\<close> builds, and the catalog of tutorials.\<close>

record sconfig =
  branding :: string
  github_paths :: "string list"
  localpaths :: "string list"

record entry =
  description :: "string option"
  url :: string
  branches_url :: string

type_synonym catalog = "string \<rightharpoonup> entry"

text \<open>The body of \<open>for repo in repos\<close>.\<close>

definition add_repo :: "string \<Rightarrow> catalog \<Rightarrow> repo \<Rightarrow> catalog" where
  "add_repo pat tutorials r =
     (if \<not> startswith (repo_name r) pat then tutorials
      else
        let name = replace_empty (repo_name r) pat;
            burl = replace_empty (repo_branches_url r) ''{/branch}''
        in tutorials(name \<mapsto>
             \<lparr>description = repo_description r, url = repo_url r, branches_url = burl\<rparr>))"

text \<open>
  The loop \<open>while nexturi\<close> over the pages of one collection. The server decides how
  many pages there are, so the loop need not end; the first argument bounds the number of
  pages requested, and \<open>None\<close> means that the loop is still running after that many.
  \<open>Some (Inl e)\<close> is an exception that leaves \<open>get_tutorials\<close>.
\<close>

fun fetch_pages ::
  "nat \<Rightarrow> world \<Rightarrow> string \<Rightarrow> string option \<Rightarrow> catalog \<Rightarrow> (exn + catalog) option"
where
  "fetch_pages n w pat None tutorials = Some (Inr tutorials)"
| "fetch_pages n w pat (Some nexturi) tutorials =
     (if nexturi = [] then Some (Inr tutorials)
      else
        (case n of
           0 \<Rightarrow> None
         | Suc m \<Rightarrow>
             (case repos_at w nexturi of
                HTTPError \<Rightarrow> Some (Inr tutorials)
              | Failure \<Rightarrow> Some (Inl RequestFailed)
              | Response repos header \<Rightarrow>
                  let tutorials = foldl (add_repo pat) tutorials repos
                  in (case header of
                        None \<Rightarrow> Some (Inr tutorials)
                      | Some h \<Rightarrow>
                          if h = [] then Some (Inr tutorials)
                          else fetch_pages m w pat (next_link h) tutorials))))"

text \<open>\<open>org, pat = path.split("/", 1)\<close> when \<open>path\<close> has a slash, the default otherwise.\<close>

definition org_pat :: "string \<Rightarrow> string \<times> string" where
  "org_pat path =
     (if CHR ''/'' \<in> set path
      then (takeWhile (\<lambda>c. c \<noteq> CHR ''/'') path, tl (dropWhile (\<lambda>c. c \<noteq> CHR ''/'') path))
      else (path, ''tutorial-''))"

definition first_page :: "string \<Rightarrow> string" where
  "first_page org = githuburl (''/orgs/'' @ org @ ''/repos'') [(''per_page'', ''20'')]"

text \<open>The loop \<open>for path in config.github_paths\<close>.\<close>

fun remote_loop :: "nat \<Rightarrow> world \<Rightarrow> string list \<Rightarrow> catalog \<Rightarrow> (exn + catalog) option" where
  "remote_loop n w [] tutorials = Some (Inr tutorials)"
| "remote_loop n w (path # paths) tutorials =
     (case org_pat path of
        (org, pat) \<Rightarrow>
          (case fetch_pages n w pat (Some (first_page org)) tutorials of
             None \<Rightarrow> None
           | Some (Inl e) \<Rightarrow> Some (Inl e)
           | Some (Inr tutorials) \<Rightarrow> remote_loop n w paths tutorials))"

text \<open>The entry recorded for a local tutorial directory.\<close>

definition local_entry :: "filesystem \<Rightarrow> string \<Rightarrow> entry" where
  "local_entry fs tut_location =
     \<lparr>description =
        Some (case readline fs (join tut_location ''.info'') of
                Some line \<Rightarrow> strip line
              | None \<Rightarrow> ''???''),
      url = ''file://'' @ tut_location,
      branches_url = ''''\<rparr>"

text \<open>The loop \<open>for name in os.listdir(path)\<close>.\<close>

fun scan_names :: "filesystem \<Rightarrow> string \<Rightarrow> string list \<Rightarrow> catalog \<Rightarrow> catalog" where
  "scan_names fs path [] tutorials = tutorials"
| "scan_names fs path (name # names) tutorials =
     (let tut_location = join path name
      in if \<not> isdir fs tut_location then scan_names fs path names tutorials
         else scan_names fs path names (tutorials(name \<mapsto> local_entry fs tut_location)))"

text \<open>The loop \<open>for path in config.localpaths\<close>; \<open>os.listdir\<close> may raise.\<close>

fun local_loop :: "filesystem \<Rightarrow> string \<Rightarrow> string list \<Rightarrow> catalog \<Rightarrow> exn + catalog" where
  "local_loop fs brand [] tutorials = Inr tutorials"
| "local_loop fs brand (path # paths) tutorials =
     (let path = join path brand
      in if \<not> path_exists fs path then local_loop fs brand paths tutorials
         else
           (case listdir fs path of
              Inl e \<Rightarrow> Inl e
            | Inr names \<Rightarrow> local_loop fs brand paths (scan_names fs path names tutorials)))"

definition get_tutorials :: "nat \<Rightarrow> world \<Rightarrow> filesystem \<Rightarrow> sconfig \<Rightarrow> (exn + catalog) option" where
  "get_tutorials n w fs config =
     (case remote_loop n w (github_paths config) Map.empty of
        None \<Rightarrow> None
      | Some (Inl e) \<Rightarrow> Some (Inl e)
      | Some (Inr tutorials) \<Rightarrow>
          Some (local_loop fs (branding config) (localpaths config) tutorials))"

section \<open>tutorial\_branches\<close>

text \<open>
  The result of \<open>tutorial_branches\<close>, and the list of the URLs it has opened.
\<close>

definition tutorial_branches :: "world \<Rightarrow> string \<Rightarrow> (exn + string list) \<times> string list" where
  "tutorial_branches w u =
     (if startswith u ''file://'' \<or> u = [] then (Inr [], [])
      else
        (case branches_at w u of
           HTTPError \<Rightarrow> (Inr [], [u])
         | Failure \<Rightarrow> (Inl RequestFailed, [u])
         | Response branches header \<Rightarrow> (Inr (map branch_name branches), [u])))"

section \<open>The install loop of main\<close>

text \<open>
  What the script writes, in order; \<open>ListTutorials\<close> stands for the listing printed by
  \<open>listtutorials()\<close>.
\<close>

datatype event = Stdout string | Stderr string | ListTutorials

record run_state =
  files :: filesystem
  written :: "event list"

text \<open>
  How \<open>main\<close> ends: it returns a value (\<open>None\<close> at the end of the loop), calls
  \<open>sys.exit\<close>, or an exception leaves it. The script passes the value returned to
  \<open>sys.exit\<close>, so each of the three ends the process.
\<close>

datatype outcome = Returned "nat option" | SysExit nat | Uncaught exn

datatype step = Next run_state | Stop outcome run_state

definition nl :: string where
  "nl = [CHR 0x0A]"

definition say :: "event \<Rightarrow> run_state \<Rightarrow> run_state" where
  "say e st = st\<lparr>written := written st @ [e]\<rparr>"

text \<open>The first two lines of the loop body: \<open>tutorial[9:]\<close> when the prefix is there.\<close>

definition install_name :: "string \<Rightarrow> string" where
  "install_name tutorial =
     (if startswith tutorial ''tutorial-'' then drop 9 tutorial else tutorial)"

definition initialize :: "world \<Rightarrow> string \<Rightarrow> run_state \<Rightarrow> run_state" where
  "initialize w dir st =
     (let st = say (Stdout (''Running setup in '' @ dir @ ''...'' @ nl)) st
      in if \<not> path_exists (files st) (join dir ''setup'') then st
         else st\<lparr>files := run_setup w (files st) dir\<rparr>)"

text \<open>The end of the loop body, reached when the files are in place.\<close>

definition installed :: "world \<Rightarrow> string \<Rightarrow> run_state \<Rightarrow> step" where
  "installed w tutorial_dir st =
     Next (initialize w tutorial_dir
       (say (Stdout (''Tutorial files installed in '' @ tutorial_dir @ ''.'' @ nl)) st))"

text \<open>One iteration of \<open>for tutorial in [cmd] + args\<close>.\<close>

definition install_one :: "world \<Rightarrow> sconfig \<Rightarrow> catalog \<Rightarrow> string \<Rightarrow> run_state \<Rightarrow> step" where
  "install_one w config tutorials arg st =
     (let tutorial = install_name arg
      in case tutorials tutorial of
           None \<Rightarrow>
             Stop (Returned (Some 20))
               (say ListTutorials
                 (say (Stderr (''Tutorial '' @ tutorial @ '' not found. Available tutorials are:'' @ nl))
                   st))
         | Some e \<Rightarrow>
             (case get_tutorial_dir (files st) tutorial of
                (base_dir, tutorial_dir) \<Rightarrow>
                  (case fst (tutorial_branches w (branches_url e)) of
                     Inl x \<Rightarrow> Stop (Uncaught x) st
                   | Inr branches \<Rightarrow>
                       let branch = (if branding config \<in> set branches
                                     then Some (branding config) else None);
                           has_branch = (branch \<noteq> None \<and> branch \<noteq> Some []);
                           st = (if has_branch
                                 then say (Stdout (''Installing '' @ tutorial @ '' ('' @ the branch
                                                   @ '')...'' @ nl)) st
                                 else say (Stdout (''Installing '' @ tutorial @ '' (master)...'' @ nl)) st);
                           st = (if path_exists (files st) base_dir
                                 then say (Stdout (''Directory '' @ base_dir @ '' exists! '')) st
                                 else st)
                       in if startswith (url e) ''file'' then
                            (case copytree w (files st) (drop 6 (url e)) tutorial_dir of
                               Copied fs \<Rightarrow> installed w tutorial_dir (st\<lparr>files := fs\<rparr>)
                             | ShutilError fs \<Rightarrow>
                                 Stop (SysExit 1)
                                   (say (Stderr (''Can't write tutorial to '' @ tutorial_dir @ nl))
                                     (st\<lparr>files := fs\<rparr>))
                             | CopyFailed fs \<Rightarrow> Stop (Uncaught OSError) (st\<lparr>files := fs\<rparr>))
                          else if has_branch then
                            (case get_repo w (files st) (url e) tutorial_dir (the branch) of
                               (None, fs) \<Rightarrow> Stop (Returned (Some 1)) (st\<lparr>files := fs\<rparr>)
                             | (Some p, fs) \<Rightarrow> installed w tutorial_dir (st\<lparr>files := fs\<rparr>))
                          else
                            (case get_repo w (files st) (url e) tutorial_dir ''master'' of
                               (None, fs) \<Rightarrow> Stop (Returned (Some 1)) (st\<lparr>files := fs\<rparr>)
                             | (Some p, fs) \<Rightarrow> installed w tutorial_dir (st\<lparr>files := fs\<rparr>)))))"

fun install_loop ::
  "world \<Rightarrow> sconfig \<Rightarrow> catalog \<Rightarrow> string list \<Rightarrow> run_state \<Rightarrow> outcome \<times> run_state"
where
  "install_loop w config tutorials [] st = (Returned None, st)"
| "install_loop w config tutorials (arg # args) st =
     (case install_one w config tutorials arg st of
        Stop r st' \<Rightarrow> (r, st')
      | Next st' \<Rightarrow> install_loop w config tutorials args st')"

text \<open>
  The install branch of \<open>main\<close> for the command line \<open>cmd args\<close>: the catalog is built
  once, then the loop runs. \<open>None\<close>: \<open>get_tutorials\<close> is still fetching pages after
  \<open>n\<close> of them for some collection.
\<close>

definition main_install ::
  "nat \<Rightarrow> world \<Rightarrow> sconfig \<Rightarrow> string \<Rightarrow> string list \<Rightarrow> run_state \<Rightarrow> (outcome \<times> run_state) option"
where
  "main_install n w config cmd args st =
     (case get_tutorials n w (files st) config of
        None \<Rightarrow> None
      | Some (Inl e) \<Rightarrow> Some (Uncaught e, st)
      | Some (Inr tutorials) \<Rightarrow> Some (install_loop w config tutorials (cmd # args) st))"

section \<open>Notions of the specification\<close>

text \<open>
  The sequence of candidate names \<open>base\<close>, \<open>base.1\<close>, \<open>base.2\<close>, ... of the
  specification's first-fit rule.
\<close>

definition trial_name :: "string \<Rightarrow> nat \<Rightarrow> string" where
  "trial_name base k = (if k = 0 then base else base @ ''.'' @ decimal k)"

text \<open>The \<open>Link\<close> header \<open><U1>; rel="next", <U2>; rel="last"\<close>.\<close>

definition link_next_last :: "string \<Rightarrow> string \<Rightarrow> string" where
  "link_next_last U1 U2 =
     ''<'' @ U1 @ ''>; rel='' @ [dquote] @ ''next'' @ [dquote] @ '', <'' @ U2
       @ ''>; rel='' @ [dquote] @ ''last'' @ [dquote]"

text \<open>
  The local scan records \<open>name\<close> for the local path \<open>path\<close>: the brand directory of
  the path lists it and it is a directory.
\<close>

definition offers :: "filesystem \<Rightarrow> string \<Rightarrow> string \<Rightarrow> string \<Rightarrow> bool" where
  "offers fs brand path name =
     (case listdir fs (join path brand) of
        Inl e \<Rightarrow> False
      | Inr names \<Rightarrow> name \<in> set names \<and> isdir fs (join (join path brand) name))"

section \<open>Example data\<close>

text \<open>An alias table with the single alias \<open>a = x,y\<close>.\<close>

definition alias_table_xy :: config where
  "alias_table_xy = \<lparr>collections = [''a'' \<mapsto> ''x,y'']\<rparr>"

text \<open>
  An example run: two local tutorials \<open>a\<close> and \<open>b\<close>, in a world where copying the
  directory of \<open>a\<close> raises \<open>shutil.Error\<close> and every other copy succeeds.
\<close>

definition local_demo :: "string \<Rightarrow> entry" where
  "local_demo name =
     \<lparr>description = Some name, url = ''file:///stash/tutorials/osg/'' @ name, branches_url = ''''\<rparr>"

definition demo_catalog :: catalog where
  "demo_catalog = [''a'' \<mapsto> local_demo ''a'', ''b'' \<mapsto> local_demo ''b'']"

definition failing_copy_world :: world where
  "failing_copy_world =
     \<lparr>repos_at = (\<lambda>u. HTTPError),
      branches_at = (\<lambda>u. HTTPError),
      copytree = (\<lambda>fs src dst. if src = ''//stash/tutorials/osg/a'' then ShutilError fs
                                 else Copied ((dst, Dir (Some [])) # fs)),
      get_repo = (\<lambda>fs u location b. (None, fs)),
      run_setup = (\<lambda>fs dir. fs)\<rparr>"

definition demo_config :: sconfig where
  "demo_config = \<lparr>branding = ''osg'', github_paths = [], localpaths = [''/stash/tutorials'']\<rparr>"

definition fresh_run :: run_state where
  "fresh_run = \<lparr>files = [], written = []\<rparr>"

text \<open>
  A world with two collections. The first page of organisation \<open>A\<close> lists one repository
  and links to a second page, which answers with an HTTP error; organisation \<open>B\<close> has a
  single page without a \<open>Link\<close> header. One branch listing is served.
\<close>

definition page2 :: string where
  "page2 = ''https://api.github.com/organizations/1/repos?page=2''"

definition page9 :: string where
  "page9 = ''https://api.github.com/organizations/1/repos?page=9''"

definition repo_demo :: "string \<Rightarrow> string \<Rightarrow> repo" where
  "repo_demo org name =
     \<lparr>repo_name = name, repo_description = None,
      repo_url = ''https://api.github.com/repos/'' @ org @ ''/'' @ name,
      repo_branches_url =
        ''https://api.github.com/repos/'' @ org @ ''/'' @ name @ ''/branches{/branch}''\<rparr>"

definition paged_world :: world where
  "paged_world =
     \<lparr>repos_at = (\<lambda>u.
        if u = first_page ''A'' then Response [repo_demo ''A'' ''tutorial-x''] (Some (link_next_last page2 page9))
        else if u = first_page ''B'' then Response [repo_demo ''B'' ''tutorial-y'', repo_demo ''B'' ''other''] None
        else HTTPError),
      branches_at = (\<lambda>u.
        if u = ''https://api.github.com/repos/A/tutorial-x/branches''
        then Response [\<lparr>branch_name = ''master''\<rparr>, \<lparr>branch_name = ''osg''\<rparr>] None
        else HTTPError),
      copytree = (\<lambda>fs src dst. Copied fs),
      get_repo = (\<lambda>fs u location b. (None, fs)),
      run_setup = (\<lambda>fs dir. fs)\<rparr>"

text \<open>
  A local catalog with the tutorial \<open>x\<close>, which the collection \<open>A\<close> has too, the
  settings for the two collections, and a world in which the name of a repository holds
  the prefix twice.
\<close>

definition local_fs :: filesystem where
  "local_fs =
     [(''/stash/tutorials/osg'', Dir (Some [''x'', ''notes.txt''])),
      (''/stash/tutorials/osg/x'', Dir (Some [''.info''])),
      (''/stash/tutorials/osg/x/.info'', File (Some (''Local copy of x'' @ nl))),
      (''/stash/tutorials/osg/notes.txt'', File (Some []))]"

definition paged_config :: sconfig where
  "paged_config =
     \<lparr>branding = ''osg'', github_paths = [''A'', ''B''], localpaths = [''/stash/tutorials'']\<rparr>"

definition slip_world :: world where
  "slip_world =
     \<lparr>repos_at = (\<lambda>u.
        if u = first_page ''A'' then Response [repo_demo ''A'' ''tutorial-a-tutorial-b''] None
        else HTTPError),
      branches_at = (\<lambda>u. HTTPError),
      copytree = (\<lambda>fs src dst. Copied fs),
      get_repo = (\<lambda>fs u location b. (None, fs)),
      run_setup = (\<lambda>fs dir. fs)\<rparr>"

text \<open>
  An alias table in which \<open>b\<close> refers to itself through an item written with a
  no-break space before the name.
\<close>

definition alias_table_nbsp :: config where
  "alias_table_nbsp =
     \<lparr>collections = [''a'' \<mapsto> ''x,y'', ''b'' \<mapsto> ''z,'' @ [CHR 0xA0] @ ''b'']\<rparr>"

section \<open>Properties of get\_collections\<close>

lemma split_on_nonempty: "split_on c s \<noteq> []"
  by (induction s) (auto split: list.splits)

lemma split_on_no_sep: "c \<notin> set a \<Longrightarrow> split_on c a = [a]"
  by (induction a) auto

lemma split_on_append: "c \<notin> set a \<Longrightarrow> split_on c (a @ c # rest) = a # split_on c rest"
  by (induction a) (auto simp: split_on_nonempty split: list.splits)

lemma collect_items_acc:
  "collect_items f cfg items res = map_option (\<lambda>r. res @ r) (collect_items f cfg items [])"
proof (induction items arbitrary: res)
  case Nil
  then show ?case by simp
next
  case (Cons item items)
  show ?case
  proof (cases "collections cfg item")
    case None
    then show ?thesis
      using Cons.IH [of "res @ [item]"] Cons.IH [of "[item]"]
      by (simp add: option.map_comp comp_def)
  next
    case (Some v)
    show ?thesis
    proof (cases "f v")
      case None
      then show ?thesis using Some by simp
    next
      case (Some sub)
      then show ?thesis
        using \<open>collections cfg item = Some v\<close> Cons.IH [of "res @ sub"] Cons.IH [of "sub"]
        by (simp add: option.map_comp comp_def)
    qed
  qed
qed

lemma collect_items_None:
  "item \<in> set items \<Longrightarrow> collections cfg item = Some v \<Longrightarrow> f v = None \<Longrightarrow>
   collect_items f cfg items res = None"
  by (induction items arbitrary: res) (auto split: option.splits)

lemma collect_items_Some:
  "(\<And>item v. item \<in> set items \<Longrightarrow> collections cfg item = Some v \<Longrightarrow> f v \<noteq> None) \<Longrightarrow>
   collect_items f cfg items res \<noteq> None"
proof (induction items arbitrary: res)
  case Nil
  then show ?case by simp
next
  case (Cons item items)
  have rest: "collect_items f cfg items res' \<noteq> None" for res'
    by (rule Cons.IH) (rule Cons.prems, simp_all)
  show ?case
  proof (cases "collections cfg item")
    case None
    then show ?thesis using rest by simp
  next
    case (Some v)
    then have "f v \<noteq> None" using Cons.prems [of item v] by simp
    then obtain sub where "f v = Some sub" by blast
    then show ?thesis using Some rest by simp
  qed
qed

lemma collect_items_mono:
  "collect_items f cfg items res = Some r \<Longrightarrow> (\<And>v s. f v = Some s \<Longrightarrow> g v = Some s) \<Longrightarrow>
   collect_items g cfg items res = Some r"
proof (induction items arbitrary: res)
  case Nil
  then show ?case by simp
next
  case (Cons item items)
  show ?case
  proof (cases "collections cfg item")
    case None
    then show ?thesis using Cons.IH [of "res @ [item]"] Cons.prems by simp
  next
    case (Some v)
    show ?thesis
    proof (cases "f v")
      case None
      then show ?thesis using Some Cons.prems(1) by simp
    next
      case (Some sub)
      then have "g v = Some sub" by (rule Cons.prems(2))
      then show ?thesis
        using Some \<open>collections cfg item = Some v\<close> Cons.IH [of "res @ sub"] Cons.prems by simp
    qed
  qed
qed

lemma get_collections_Suc:
  "get_collections n cfg v = Some r \<Longrightarrow> get_collections (Suc n) cfg v = Some r"
proof (induction n arbitrary: v r)
  case 0
  then show ?case by simp
next
  case (Suc n)
  from Suc.prems
  have "collect_items (get_collections n cfg) cfg (items_of v) [] = Some r"
    by simp
  then have "collect_items (get_collections (Suc n) cfg) cfg (items_of v) [] = Some r"
    by (rule collect_items_mono) (rule Suc.IH)
  then show ?case
    by (subst get_collections.simps(2))
qed

lemma get_collections_mono:
  "get_collections n cfg v = Some r \<Longrightarrow> n \<le> m \<Longrightarrow> get_collections m cfg v = Some r"
proof (induction m)
  case 0
  then show ?case by simp
next
  case (Suc m)
  show ?case
  proof (cases "n = Suc m")
    case True
    then show ?thesis using Suc.prems by blast
  next
    case False
    then have "get_collections m cfg v = Some r" using Suc by simp
    then show ?thesis by (rule get_collections_Suc)
  qed
qed


lemma items_of_single: "CHR '','' \<notin> set b \<Longrightarrow> items_of b = [strip b]"
  by (simp add: items_of_def split_on_no_sep)

lemma items_of_append:
  "CHR '','' \<notin> set a \<Longrightarrow> items_of (a @ CHR '','' # rest) = strip a # items_of rest"
  by (simp add: items_of_def split_on_append)

lemma gc_Suc: "get_collections (Suc n) cfg v = collect_items (get_collections n cfg) cfg (items_of v) []"
  by simp

lemma get_collections_splice:
  assumes "CHR '','' \<notin> set a"
  shows "get_collections (Suc n) cfg (a @ CHR '','' # rest) =
     (case expand_item (get_collections n cfg) cfg (strip a) of
        None \<Rightarrow> None
      | Some ra \<Rightarrow> map_option (\<lambda>r. ra @ r) (get_collections (Suc n) cfg rest))"
proof -
  let ?f = "get_collections n cfg"
  have "get_collections (Suc n) cfg (a @ CHR '','' # rest) =
        collect_items ?f cfg (strip a # items_of rest) []"
    by (simp only: gc_Suc items_of_append [OF assms])
  also have "\<dots> = (case expand_item ?f cfg (strip a) of
        None \<Rightarrow> None
      | Some ra \<Rightarrow> map_option (\<lambda>r. ra @ r) (collect_items ?f cfg (items_of rest) []))"
  proof (cases "collections cfg (strip a)")
    case None
    moreover have "(@) [strip a] = (#) (strip a)" by (rule ext) simp
    ultimately show ?thesis
      using collect_items_acc [of ?f cfg "items_of rest" "[strip a]"]
      by (simp add: expand_item_def)
  next
    case (Some va)
    show ?thesis
    proof (cases "?f va")
      case None
      then show ?thesis using Some by (simp add: expand_item_def)
    next
      case (Some sub)
      then show ?thesis
        using \<open>collections cfg (strip a) = Some va\<close>
          collect_items_acc [of ?f cfg "items_of rest" sub]
        by (simp add: expand_item_def)
    qed
  qed
  finally show ?thesis by (simp only: gc_Suc)
qed

lemma cycle_step:
  assumes "(alias_ref cfg)\<^sup>*\<^sup>* b a" and "(alias_ref cfg)\<^sup>+\<^sup>+ a a"
  obtains c where "alias_ref cfg b c" and "(alias_ref cfg)\<^sup>*\<^sup>* c a"
proof -
  from assms have "(alias_ref cfg)\<^sup>+\<^sup>+ b a" by (rule rtranclp_tranclp_tranclp)
  then show ?thesis using that by (blast dest: tranclpD)
qed

lemma alias_on_cycle_diverges:
  "(alias_ref cfg)\<^sup>*\<^sup>* b a \<Longrightarrow> (alias_ref cfg)\<^sup>+\<^sup>+ a a \<Longrightarrow> collections cfg b = Some vb \<Longrightarrow>
   get_collections n cfg vb = None"
proof (induction n arbitrary: b vb)
  case 0
  then show ?case by simp
next
  case (Suc n)
  from Suc.prems(1,2) obtain c where c: "alias_ref cfg b c" "(alias_ref cfg)\<^sup>*\<^sup>* c a"
    by (rule cycle_step)
  from c(1) Suc.prems(3) obtain vc where
    vc: "c \<in> set (items_of vb)" "collections cfg c = Some vc"
    by (auto simp: alias_ref_def)
  have "get_collections n cfg vc = None"
    using c(2) Suc.prems(2) vc(2) by (rule Suc.IH)
  with vc show ?case
    by (simp only: gc_Suc collect_items_None)
qed

lemma spec_on_cycle_diverges:
  assumes "item \<in> set (items_of v)" and "(alias_ref cfg)\<^sup>*\<^sup>* item a" and "(alias_ref cfg)\<^sup>+\<^sup>+ a a"
  shows "get_collections n cfg v = None"
proof (cases n)
  case 0
  then show ?thesis by simp
next
  case (Suc k)
  from assms(2,3) obtain c where "alias_ref cfg item c" by (rule cycle_step)
  then obtain vi where vi: "collections cfg item = Some vi"
    by (auto simp: alias_ref_def)
  have "get_collections k cfg vi = None"
    using assms(2,3) vi by (rule alias_on_cycle_diverges)
  with assms(1) vi show ?thesis
    unfolding Suc by (simp only: gc_Suc collect_items_None)
qed

lemma wf_alias_ref:
  assumes fin: "finite (dom (collections cfg))" and acyc: "\<forall>a. \<not> (alias_ref cfg)\<^sup>+\<^sup>+ a a"
  shows "wf {(b, a). alias_ref cfg a b}"
proof -
  let ?r = "{(a, b). alias_ref cfg a b}"
  have "?r \<subseteq> dom (collections cfg) \<times> dom (collections cfg)"
    by (auto simp: alias_ref_def)
  then have "finite ?r" using fin by (meson finite_SigmaI finite_subset)
  moreover have "acyclic ?r"
    unfolding acyclic_def
  proof
    fix x
    have "(\<lambda>x y. (x, y) \<in> ?r\<^sup>+) = (alias_ref cfg)\<^sup>+\<^sup>+"
      using tranclp_trancl_eq [of ?r] by simp
    then have "((x, x) \<in> ?r\<^sup>+) = (alias_ref cfg)\<^sup>+\<^sup>+ x x" by metis
    then show "(x, x) \<notin> ?r\<^sup>+" using acyc by simp
  qed
  ultimately have "wf (?r\<inverse>)" by (rule finite_acyclic_wf_converse)
  moreover have "?r\<inverse> = {(b, a). alias_ref cfg a b}" by auto
  ultimately show ?thesis by simp
qed

lemma uniform_depth:
  assumes "\<And>item vb. item \<in> set items \<Longrightarrow> collections cfg item = Some vb \<Longrightarrow>
             \<exists>n. get_collections n cfg vb \<noteq> None"
  shows "\<exists>N. \<forall>item \<in> set items. \<forall>vb. collections cfg item = Some vb \<longrightarrow>
             get_collections N cfg vb \<noteq> None"
  using assms
proof (induction items)
  case Nil
  then show ?case by simp
next
  case (Cons item items)
  from Cons obtain N where N: "\<forall>i \<in> set items. \<forall>vb. collections cfg i = Some vb \<longrightarrow>
             get_collections N cfg vb \<noteq> None"
    by (meson list.set_intros(2))
  show ?case
  proof (cases "collections cfg item")
    case None
    then show ?thesis using N by auto
  next
    case (Some v)
    then obtain n r where n: "get_collections n cfg v = Some r"
      using Cons.prems [of item v] by auto
    have "get_collections (max n N) cfg v \<noteq> None"
      using get_collections_mono [OF n, of "max n N"] by simp
    moreover have "\<forall>i \<in> set items. \<forall>vb. collections cfg i = Some vb \<longrightarrow>
             get_collections (max n N) cfg vb \<noteq> None"
      using N get_collections_mono [where m = "max n N" and n = N] by fastforce
    ultimately show ?thesis using Some by (intro exI [of _ "max n N"]) auto
  qed
qed

lemma value_returns:
  assumes "\<And>item vb. item \<in> set (items_of v) \<Longrightarrow> collections cfg item = Some vb \<Longrightarrow>
             \<exists>n. get_collections n cfg vb \<noteq> None"
  shows "\<exists>n. get_collections n cfg v \<noteq> None"
proof -
  from uniform_depth [of "items_of v" cfg] assms obtain N where
    "\<forall>item \<in> set (items_of v). \<forall>vb. collections cfg item = Some vb \<longrightarrow>
             get_collections N cfg vb \<noteq> None"
    by blast
  then have "collect_items (get_collections N cfg) cfg (items_of v) [] \<noteq> None"
    by (intro collect_items_Some) blast
  then have "get_collections (Suc N) cfg v \<noteq> None" by simp
  then show ?thesis ..
qed

lemma alias_returns:
  assumes fin: "finite (dom (collections cfg))" and acyc: "\<forall>a. \<not> (alias_ref cfg)\<^sup>+\<^sup>+ a a"
  shows "collections cfg a = Some va \<Longrightarrow> \<exists>n. get_collections n cfg va \<noteq> None"
proof (induction a arbitrary: va rule: wf_induct_rule [OF wf_alias_ref [OF fin acyc]])
  case (1 a)
  show ?case
  proof (rule value_returns)
    fix item vb
    assume item: "item \<in> set (items_of va)" "collections cfg item = Some vb"
    then have "alias_ref cfg a item"
      using "1.prems" by (auto simp: alias_ref_def)
    then show "\<exists>n. get_collections n cfg vb \<noteq> None"
      using "1.IH" [of item vb] item(2) by simp
  qed
qed

lemma acyclic_returns:
  assumes fin: "finite (dom (collections cfg))" and acyc: "\<forall>a. \<not> (alias_ref cfg)\<^sup>+\<^sup>+ a a"
  shows "\<exists>n r. get_collections n cfg v = Some r"
proof -
  have "\<exists>n. get_collections n cfg v \<noteq> None"
    by (rule value_returns) (rule alias_returns [OF fin acyc])
  then show ?thesis by auto
qed

lemma get_collections_single:
  assumes "CHR '','' \<notin> set b"
  shows "get_collections (Suc n) cfg b = expand_item (get_collections n cfg) cfg (strip b)"
proof (cases "collections cfg (strip b)")
  case None
  then show ?thesis
    by (simp add: items_of_single [OF assms] expand_item_def)
next
  case (Some vb)
  then show ?thesis
    by (cases "get_collections n cfg vb")
       (simp_all add: items_of_single [OF assms] expand_item_def)
qed

lemma strip_plain: "strip ''a'' = ''a''" "strip ''b'' = ''b''" "strip ''x'' = ''x''"
  "strip ''y'' = ''y''"
  by (simp_all add: strip_def is_space_def)

lemma strip_whitespace:
  "strip ([CHR 0xA0] @ ''b'') = ''b''"
  "strip ([CHR 0x85, CHR 0x09] @ ''b'' @ [CHR 0x20, CHR 0x0A, CHR 0xA0]) = ''b''"
  "strip ''a b'' = ''a b''"
  by (simp_all add: strip_def is_space_def)

subsection \<open>Cyclic aliases\<close>

text \<open>
  C2 (as amended). \<open>get_collections\<close> has no visited set and no error of its own for
  cycles. When the spec \<open>v\<close> has an item that is or reaches a cyclic alias \<open>a\<close>, the
  call returns within no depth bound: the recursion is unbounded, and nothing is returned
  or signalled by the function itself. (An interpreter that limits the depth of recursion
  aborts the call at its limit, whatever the limit is.)
\<close>

theorem get_collections_cycle_never_returns:
  assumes "item \<in> set (items_of v)"
    and "(alias_ref cfg)\<^sup>*\<^sup>* item a"
    and "(alias_ref cfg)\<^sup>+\<^sup>+ a a"
  shows "get_collections n cfg v = None"
  using assms by (rule spec_on_cycle_diverges)

theorem get_collections_cycle_never_returns_witness:
  "''a'' \<in> set (items_of ''x,a'')
   \<and> (alias_ref \<lparr>collections = [''a'' \<mapsto> ''b'', ''b'' \<mapsto> ''a'']\<rparr>)\<^sup>*\<^sup>* ''a'' ''a''
   \<and> (alias_ref \<lparr>collections = [''a'' \<mapsto> ''b'', ''b'' \<mapsto> ''a'']\<rparr>)\<^sup>+\<^sup>+ ''a'' ''a''
   \<and> get_collections 1000 \<lparr>collections = [''a'' \<mapsto> ''b'', ''b'' \<mapsto> ''a'']\<rparr> ''x,a'' = None"
proof -
  let ?cfg = "\<lparr>collections = [''a'' \<mapsto> ''b'', ''b'' \<mapsto> ''a'']\<rparr>"
  have item: "''a'' \<in> set (items_of ''x,a'')"
    by (simp add: items_of_def strip_plain)
  have ab: "alias_ref ?cfg ''a'' ''b''"
    by (simp add: alias_ref_def items_of_def strip_plain)
  have ba: "alias_ref ?cfg ''b'' ''a''"
    by (simp add: alias_ref_def items_of_def strip_plain)
  have cyc: "(alias_ref ?cfg)\<^sup>+\<^sup>+ ''a'' ''a''"
    using ab ba by (rule tranclp.intros(2) [OF tranclp.intros(1)])
  have reach: "(alias_ref ?cfg)\<^sup>*\<^sup>* ''a'' ''a''" by simp
  show ?thesis
    using item reach cyc get_collections_cycle_never_returns [OF item reach cyc, of 1000]
    by blast
qed

text \<open>
  The alias \<open>a = a\<close> refers to itself; resolving the spec \<open>a\<close> exceeds every depth.
\<close>

theorem self_alias_counterexample:
  "\<forall>n. get_collections n \<lparr>collections = [''a'' \<mapsto> ''a'']\<rparr> ''a'' = None"
proof
  fix n
  show "get_collections n \<lparr>collections = [''a'' \<mapsto> ''a'']\<rparr> ''a'' = None"
    by (induction n) (simp_all add: items_of_def strip_plain)
qed

subsection \<open>Order of the expansion\<close>

text \<open>
  C9. On a finite alias table without cyclic aliases \<open>get_collections\<close> returns, and
  the result does not depend on the depth allowed once it suffices. For the spec
  \<open>a,b\<close> where the alias \<open>a\<close> stands for \<open>x,y\<close> (two literal items) the result is
  \<open>x\<close>, \<open>y\<close>, then what \<open>b\<close> contributes, in this order: \<open>b\<close> itself when it is
  a literal, the expansion of its value when it is an alias. Nothing is removed when an
  item occurs twice.
\<close>

theorem get_collections_order_preserving:
  assumes fin: "finite (dom (collections cfg))"
    and acyc: "\<forall>c. \<not> (alias_ref cfg)\<^sup>+\<^sup>+ c c"
    and commas: "CHR '','' \<notin> set a" "CHR '','' \<notin> set b" "CHR '','' \<notin> set x" "CHR '','' \<notin> set y"
    and a: "collections cfg (strip a) = Some (x @ '','' @ y)"
    and x: "collections cfg (strip x) = None"
    and y: "collections cfg (strip y) = None"
  shows "\<exists>n rb.
     (\<forall>m\<ge>n. get_collections m cfg (a @ '','' @ b) = Some (strip x # strip y # rb)) \<and>
     (case collections cfg (strip b) of
        None \<Rightarrow> rb = [strip b]
      | Some vb \<Rightarrow> (\<forall>m\<ge>n. get_collections m cfg vb = Some rb))"
proof -
  have xy: "get_collections (Suc k) cfg (x @ '','' @ y) = Some [strip x, strip y]" for k
    using get_collections_splice [OF commas(3), of 0 cfg y] get_collections_single [OF commas(4), of 0 cfg]
      get_collections_mono [of "Suc 0" cfg "x @ '','' @ y" "[strip x, strip y]" "Suc k"] x y
    by (simp add: expand_item_def del: get_collections.simps)
  have ab: "get_collections (Suc (Suc k)) cfg (a @ '','' @ b) =
      map_option ((@) [strip x, strip y]) (expand_item (get_collections (Suc k) cfg) cfg (strip b))" for k
    using get_collections_splice [OF commas(1), of "Suc k" cfg b]
      get_collections_single [OF commas(2), of "Suc k" cfg] xy [of k] a
    by (simp add: expand_item_def del: get_collections.simps)
  show ?thesis
  proof (cases "collections cfg (strip b)")
    case None
    have "\<forall>m\<ge>2. get_collections m cfg (a @ '','' @ b) = Some (strip x # strip y # [strip b])"
    proof (intro allI impI)
      fix m :: nat assume "2 \<le> m"
      then obtain k where "m = Suc (Suc k)" by (metis Suc_le_D numeral_2_eq_2 Suc_le_mono)
      then show "get_collections m cfg (a @ '','' @ b) = Some (strip x # strip y # [strip b])"
        using ab [of k] None by (simp add: expand_item_def del: get_collections.simps)
    qed
    then show ?thesis using None by (intro exI [of _ 2] exI [of _ "[strip b]"]) simp
  next
    case (Some vb)
    from acyclic_returns [OF fin acyc, of vb] obtain n0 r0 where
      n0: "get_collections n0 cfg vb = Some r0" by blast
    have vb: "get_collections m cfg vb = Some r0" if "n0 \<le> m" for m
      using n0 that by (rule get_collections_mono)
    have "get_collections m cfg (a @ '','' @ b) = Some (strip x # strip y # r0)"
      if "Suc (Suc n0) \<le> m" for m
    proof -
      from that obtain k where k: "m = Suc (Suc k)" "n0 \<le> k"
        by (metis Suc_le_D Suc_le_mono)
      then show ?thesis
        using ab [of k] Some vb [of "Suc k"]
        by (simp add: expand_item_def del: get_collections.simps)
    qed
    moreover have "get_collections m cfg vb = Some r0" if "Suc (Suc n0) \<le> m" for m
      using that by (intro vb) simp
    ultimately show ?thesis
      using Some by (intro exI [of _ "Suc (Suc n0)"] exI [of _ r0]) simp
  qed
qed

lemma alias_table_xy_no_ref: "\<not> alias_ref alias_table_xy c d"
  by (auto simp: alias_ref_def alias_table_xy_def items_of_def strip_plain split: if_splits)

theorem get_collections_order_preserving_witness:
  "finite (dom (collections alias_table_xy))
   \<and> (\<forall>c. \<not> (alias_ref alias_table_xy)\<^sup>+\<^sup>+ c c)
   \<and> CHR '','' \<notin> set ''a'' \<and> CHR '','' \<notin> set ''x'' \<and> CHR '','' \<notin> set ''y''
   \<and> collections alias_table_xy (strip ''a'') = Some (''x'' @ '','' @ ''y'')
   \<and> collections alias_table_xy (strip ''x'') = None
   \<and> collections alias_table_xy (strip ''y'') = None
   \<and> (\<exists>n. \<forall>m\<ge>n. get_collections m alias_table_xy (''a'' @ '','' @ ''x'') = Some [''x'', ''y'', ''x''])"
proof -
  have fin: "finite (dom (collections alias_table_xy))"
    by (simp add: alias_table_xy_def)
  have acyc: "\<forall>c. \<not> (alias_ref alias_table_xy)\<^sup>+\<^sup>+ c c"
    by (auto dest: tranclpD simp: alias_table_xy_no_ref)
  have commas: "CHR '','' \<notin> set ''a''" "CHR '','' \<notin> set ''x''" "CHR '','' \<notin> set ''y''"
    by simp_all
  have a: "collections alias_table_xy (strip ''a'') = Some (''x'' @ '','' @ ''y'')"
    by (simp add: alias_table_xy_def strip_plain)
  have x: "collections alias_table_xy (strip ''x'') = None"
    by (simp add: alias_table_xy_def strip_plain)
  have y: "collections alias_table_xy (strip ''y'') = None"
    by (simp add: alias_table_xy_def strip_plain)
  from get_collections_order_preserving [OF fin acyc commas(1) commas(2) commas(2) commas(3) a x y]
  have "\<exists>n. \<forall>m\<ge>n. get_collections m alias_table_xy (''a'' @ '','' @ ''x'') = Some [''x'', ''y'', ''x'']"
    using x by (auto simp: strip_plain)
  then show ?thesis using fin acyc commas a x y by blast
qed


text \<open>
  Whitespace around an item never hides a reference: in the table
  \<open>alias_table_nbsp\<close> the value of \<open>b\<close> names \<open>b\<close> behind a no-break space, which
  \<open>strip\<close> removes, so the table is cyclic and the spec \<open>a,b\<close> returns within no
  depth.
\<close>

lemma alias_table_nbsp_cyclic:
  "get_collections n alias_table_nbsp ''a,b'' = None"
proof -
  have item: "''b'' \<in> set (items_of ''a,b'')"
    by (simp add: items_of_def strip_plain)
  have "alias_ref alias_table_nbsp ''b'' ''b''"
    by (simp add: alias_ref_def alias_table_nbsp_def items_of_def strip_def is_space_def)
  then have cyc: "(alias_ref alias_table_nbsp)\<^sup>+\<^sup>+ ''b'' ''b''" by (rule tranclp.intros(1))
  have reach: "(alias_ref alias_table_nbsp)\<^sup>*\<^sup>* ''b'' ''b''" by simp
  show ?thesis using item reach cyc by (rule spec_on_cycle_diverges)
qed

section \<open>Properties of get\_tutorial\_dir\<close>

lemma trial_loop_first_free:
  "t = trial_name base p \<Longrightarrow>
   \<exists>k\<ge>p. trial_loop fs base p t = trial_name base k \<and> \<not> path_exists fs (trial_name base k)
      \<and> (\<forall>j. p \<le> j \<and> j < k \<longrightarrow> path_exists fs (trial_name base j))"
proof (induction fs base p t rule: trial_loop.induct)
  case (1 fs base_dir postfix trial_dir)
  show ?case
  proof (cases "path_exists fs trial_dir")
    case False
    then have "trial_loop fs base_dir postfix trial_dir = trial_dir"
      by (simp add: trial_loop.simps)
    then show ?thesis using False "1.prems" by (intro exI [of _ postfix]) auto
  next
    case True
    have next_name: "base_dir @ ''.'' @ decimal (postfix + 1) = trial_name base_dir (postfix + 1)"
      by (simp add: trial_name_def)
    from "1.IH" [OF True next_name] obtain k where k: "postfix + 1 \<le> k"
      "trial_loop fs base_dir (postfix + 1) (base_dir @ ''.'' @ decimal (postfix + 1))
         = trial_name base_dir k"
      "\<not> path_exists fs (trial_name base_dir k)"
      "\<forall>j. postfix + 1 \<le> j \<and> j < k \<longrightarrow> path_exists fs (trial_name base_dir j)"
      by blast
    have "trial_loop fs base_dir postfix trial_dir = trial_name base_dir k"
      using True k(2) by (subst trial_loop.simps) simp
    moreover have "path_exists fs (trial_name base_dir j)" if "postfix \<le> j" "j < k" for j
    proof (cases "j = postfix")
      case True
      then show ?thesis using \<open>path_exists fs trial_dir\<close> "1.prems" by simp
    next
      case False
      then show ?thesis using that k(4) by simp
    qed
    ultimately show ?thesis using k(1,3) by (intro exI [of _ k]) simp
  qed
qed

lemma join_dot: "startswith t ''tutorial-'' \<Longrightarrow> join ''.'' t = ''./'' @ t"
  by (cases t) (auto simp: join_def startswith_def)

lemma get_tutorial_dir_base:
  "fst (get_tutorial_dir fs x) = ''./'' @ (if startswith x ''tutorial-'' then x else ''tutorial-'' @ x)"
proof -
  have "startswith (''tutorial-'' @ x) ''tutorial-''" by (simp add: startswith_def)
  then show ?thesis by (simp add: get_tutorial_dir_def Let_def join_dot)
qed

lemma get_tutorial_dir_trial:
  "snd (get_tutorial_dir fs x) = trial_loop fs (fst (get_tutorial_dir fs x)) 0 (fst (get_tutorial_dir fs x))"
  by (simp add: get_tutorial_dir_def Let_def)

text \<open>
  C4 (as amended). \<open>get_tutorial_dir\<close> returns the base name and the first name of the
  sequence \<open>base\<close>, \<open>base.1\<close>, \<open>base.2\<close>, ... that does not exist: the name
  returned is free and every earlier name of the sequence is occupied. This holds for
  every name and every file system; the loop always ends. The base is \<open>./tutorial-x\<close>
  for a name \<open>x\<close> that does not begin with \<open>tutorial-\<close>, and \<open>./x\<close> for a name that
  does: the prefix is added only when it is absent.
\<close>

theorem get_tutorial_dir_first_free:
  "\<exists>k. let base = ''./'' @ (if startswith x ''tutorial-'' then x else ''tutorial-'' @ x)
       in get_tutorial_dir fs x = (base, trial_name base k)
          \<and> \<not> path_exists fs (trial_name base k)
          \<and> (\<forall>j<k. path_exists fs (trial_name base j))"
proof -
  let ?base = "''./'' @ (if startswith x ''tutorial-'' then x else ''tutorial-'' @ x)"
  have "?base = trial_name ?base 0" by (simp add: trial_name_def)
  from trial_loop_first_free [OF this, of fs] obtain k where
    "trial_loop fs ?base 0 ?base = trial_name ?base k" "\<not> path_exists fs (trial_name ?base k)"
    "\<forall>j. j < k \<longrightarrow> path_exists fs (trial_name ?base j)"
    by auto
  moreover have "get_tutorial_dir fs x = (?base, trial_loop fs ?base 0 ?base)"
    using get_tutorial_dir_base [of fs x] get_tutorial_dir_trial [of fs x]
    by (metis prod.collapse)
  ultimately show ?thesis unfolding Let_def by (intro exI [of _ k]) simp
qed

lemma decimal_small: "decimal 1 = ''1''" "decimal 2 = ''2''" "decimal (Suc 0) = ''1''"
  by code_simp+

theorem get_tutorial_dir_first_free_witness:
  "get_tutorial_dir [(''./tutorial-x'', Dir None), (''./tutorial-x.1'', Dir None)] ''x''
     = (''./tutorial-x'', ''./tutorial-x.2'')
   \<and> \<not> path_exists [(''./tutorial-x'', Dir None), (''./tutorial-x.1'', Dir None)] ''./tutorial-x.2''
   \<and> path_exists [(''./tutorial-x'', Dir None), (''./tutorial-x.1'', Dir None)]
         (trial_name ''./tutorial-x'' 0)
   \<and> path_exists [(''./tutorial-x'', Dir None), (''./tutorial-x.1'', Dir None)]
         (trial_name ''./tutorial-x'' 1)"
proof -
  let ?fs = "[(''./tutorial-x'', Dir None), (''./tutorial-x.1'', Dir None)]"
  have nx: "\<not> startswith ''x'' ''tutorial-''" by (simp add: startswith_def)
  from get_tutorial_dir_first_free [of "''x''" ?fs] nx obtain k where
    k: "get_tutorial_dir ?fs ''x'' = (''./tutorial-x'', trial_name ''./tutorial-x'' k)"
      "\<not> path_exists ?fs (trial_name ''./tutorial-x'' k)"
      "\<forall>j<k. path_exists ?fs (trial_name ''./tutorial-x'' j)"
    by (auto simp: Let_def)
  have e0: "path_exists ?fs (trial_name ''./tutorial-x'' 0)"
    by (simp add: path_exists_def trial_name_def)
  have e1: "path_exists ?fs (trial_name ''./tutorial-x'' 1)"
    by (simp add: path_exists_def trial_name_def decimal_small)
  have e2: "\<not> path_exists ?fs (trial_name ''./tutorial-x'' 2)"
    by (simp add: path_exists_def trial_name_def decimal_small)
  have "k \<noteq> 0" "k \<noteq> 1" using k(2) e0 e1 by metis+
  moreover have "\<not> 2 < k" using k(3) e2 by metis
  ultimately have "k = 2" by linarith
  then show ?thesis using k(1) e0 e1 e2 by (simp add: trial_name_def decimal_small)
qed

text \<open>
  For the name \<open>tutorial-a\<close> and an empty directory the result is \<open>./tutorial-a\<close>,
  which is no member of the sequence \<open>./tutorial-tutorial-a\<close>,
  \<open>./tutorial-tutorial-a.1\<close>, ...
\<close>

lemma trial_name_length: "length base \<le> length (trial_name base k)"
  by (simp add: trial_name_def)

theorem prefixed_name_counterexample:
  "get_tutorial_dir [] ''tutorial-a'' = (''./tutorial-a'', ''./tutorial-a'')
   \<and> (\<forall>k. trial_name ''./tutorial-tutorial-a'' k \<noteq> ''./tutorial-a'')"
proof -
  have "get_tutorial_dir [] ''tutorial-a'' = (''./tutorial-a'', ''./tutorial-a'')"
    by (simp add: get_tutorial_dir_def startswith_def join_def trial_loop.simps path_exists_def Let_def)
  moreover have "trial_name ''./tutorial-tutorial-a'' k \<noteq> ''./tutorial-a''" for k
    using trial_name_length [of "''./tutorial-tutorial-a''" k] by auto
  ultimately show ?thesis by simp
qed

section \<open>Properties of the install loop\<close>

lemma files_say [simp]: "files (say e st) = files st"
  by (simp add: say_def)

lemma written_say [simp]: "written (say e st) = written st @ [e]"
  by (simp add: say_def)

lemma install_one_copy_failure:
  assumes "tutorials (install_name arg) = Some e"
    and "fst (tutorial_branches w (branches_url e)) = Inr branches"
    and "startswith (url e) ''file''"
    and "copytree w (files st) (drop 6 (url e))
           (snd (get_tutorial_dir (files st) (install_name arg))) = ShutilError fs"
  shows "\<exists>st'. install_one w config tutorials arg st = Stop (SysExit 1) st' \<and> files st' = fs
     \<and> last (written st') = Stderr (''Can't write tutorial to ''
           @ snd (get_tutorial_dir (files st) (install_name arg)) @ nl)"
  using assms
  by (cases "get_tutorial_dir (files st) (install_name arg)")
     (simp add: install_one_def Let_def)

text \<open>
  C3 (as amended). When the recursive copy of a local-source tutorial raises
  \<open>shutil.Error\<close>, the failure is reported on the error stream and the script calls
  \<open>sys.exit(1)\<close>: the whole run ends with status 1, whatever arguments remain.
\<close>

theorem local_copy_failure_ends_run:
  assumes "tutorials (install_name arg) = Some e"
    and "fst (tutorial_branches w (branches_url e)) = Inr branches"
    and "startswith (url e) ''file''"
    and "copytree w (files st) (drop 6 (url e))
           (snd (get_tutorial_dir (files st) (install_name arg))) = ShutilError fs"
  shows "\<exists>st'. install_loop w config tutorials (arg # rest) st = (SysExit 1, st')
     \<and> install_loop w config tutorials [arg] st = (SysExit 1, st')
     \<and> files st' = fs
     \<and> last (written st') = Stderr (''Can't write tutorial to ''
           @ snd (get_tutorial_dir (files st) (install_name arg)) @ nl)"
proof -
  from assms install_one_copy_failure [of tutorials arg e w branches st fs config] obtain st' where
    "install_one w config tutorials arg st = Stop (SysExit 1) st'" "files st' = fs"
    "last (written st') = Stderr (''Can't write tutorial to ''
           @ snd (get_tutorial_dir (files st) (install_name arg)) @ nl)"
    by blast
  then show ?thesis by (intro exI [of _ st']) simp
qed

theorem local_copy_failure_ends_run_witness:
  "demo_catalog (install_name ''a'') = Some (local_demo ''a'')
   \<and> fst (tutorial_branches failing_copy_world (branches_url (local_demo ''a''))) = Inr []
   \<and> startswith (url (local_demo ''a'')) ''file''
   \<and> copytree failing_copy_world (files fresh_run) (drop 6 (url (local_demo ''a'')))
        (snd (get_tutorial_dir (files fresh_run) (install_name ''a''))) = ShutilError []
   \<and> (\<exists>st'. install_loop failing_copy_world demo_config demo_catalog (''a'' # [''b'']) fresh_run
               = (SysExit 1, st')
          \<and> install_loop failing_copy_world demo_config demo_catalog [''a''] fresh_run
               = (SysExit 1, st')
          \<and> files st' = [])"
proof -
  have 1: "demo_catalog (install_name ''a'') = Some (local_demo ''a'')"
    by (simp add: demo_catalog_def install_name_def startswith_def)
  have 2: "fst (tutorial_branches failing_copy_world (branches_url (local_demo ''a''))) = Inr []"
    by (simp add: tutorial_branches_def local_demo_def)
  have 3: "startswith (url (local_demo ''a'')) ''file''"
    by (simp add: local_demo_def startswith_def)
  have 4: "copytree failing_copy_world (files fresh_run) (drop 6 (url (local_demo ''a'')))
        (snd (get_tutorial_dir (files fresh_run) (install_name ''a''))) = ShutilError []"
    by (simp add: failing_copy_world_def local_demo_def fresh_run_def)
  from local_copy_failure_ends_run
    [of demo_catalog "''a''" "local_demo ''a''" failing_copy_world "[]" fresh_run "[]"
        demo_config "[''b'']", OF 1 2 3 4]
  show ?thesis using 1 2 3 4 by blast
qed

text \<open>
  In the example run the request is for \<open>a\<close> and \<open>b\<close>. The copy of \<open>a\<close> fails, the
  process exits with status 1 and nothing is written or installed for \<open>b\<close>, although
  \<open>b\<close> requested alone is installed.
\<close>

theorem copy_failure_stops_siblings_counterexample:
  "install_loop failing_copy_world demo_config demo_catalog [''a'', ''b''] fresh_run
     = (SysExit 1,
        \<lparr>files = [],
         written = [Stdout (''Installing a (master)...'' @ nl),
                    Stderr (''Can't write tutorial to ./tutorial-a'' @ nl)]\<rparr>)
   \<and> install_loop failing_copy_world demo_config demo_catalog [''b''] fresh_run
     = (Returned None,
        \<lparr>files = [(''./tutorial-b'', Dir (Some []))],
         written = [Stdout (''Installing b (master)...'' @ nl),
                    Stdout (''Tutorial files installed in ./tutorial-b.'' @ nl),
                    Stdout (''Running setup in ./tutorial-b...'' @ nl)]\<rparr>)"
  by code_simp

lemma install_name_prefixed: "install_name (''tutorial-'' @ x) = x"
  by (simp add: install_name_def startswith_def)

lemma install_name_plain: "\<not> startswith x ''tutorial-'' \<Longrightarrow> install_name x = x"
  by (simp add: install_name_def)

text \<open>
  C10 (as amended). \<open>main\<close> strips one leading \<open>tutorial-\<close> from every install
  argument before the catalog lookup, and \<open>get_tutorial_dir\<close> adds the prefix only when
  it is absent. For every name \<open>x\<close> that does not itself begin with \<open>tutorial-\<close>, the
  arguments \<open>x\<close> and \<open>tutorial-x\<close> therefore give the same catalog key, hence the same
  entry, the same destination base \<open>./tutorial-x\<close>, never
  \<open>./tutorial-tutorial-x\<close>, and the same run of the install loop.
\<close>

theorem install_name_normalised:
  "install_name (''tutorial-'' @ x) = x
   \<and> fst (get_tutorial_dir fs t)
       = ''./'' @ (if startswith t ''tutorial-'' then t else ''tutorial-'' @ t)
   \<and> (\<not> startswith x ''tutorial-'' \<longrightarrow>
        install_name x = x
        \<and> tutorials (install_name (''tutorial-'' @ x)) = tutorials (install_name x)
        \<and> fst (get_tutorial_dir fs (install_name x)) = ''./tutorial-'' @ x
        \<and> fst (get_tutorial_dir fs (install_name (''tutorial-'' @ x))) = ''./tutorial-'' @ x
        \<and> \<not> startswith (fst (get_tutorial_dir fs (install_name (''tutorial-'' @ x))))
              ''./tutorial-tutorial-''
        \<and> install_loop w config tutorials ((''tutorial-'' @ x) # args) st
            = install_loop w config tutorials (x # args) st)"
proof (intro conjI impI)
  show p: "install_name (''tutorial-'' @ x) = x" by (rule install_name_prefixed)
  show "fst (get_tutorial_dir fs t)
       = ''./'' @ (if startswith t ''tutorial-'' then t else ''tutorial-'' @ t)"
    by (rule get_tutorial_dir_base)
  assume bare: "\<not> startswith x ''tutorial-''"
  show n: "install_name x = x" using bare by (rule install_name_plain)
  show "tutorials (install_name (''tutorial-'' @ x)) = tutorials (install_name x)"
    by (simp only: p n)
  show base: "fst (get_tutorial_dir fs (install_name x)) = ''./tutorial-'' @ x"
    using bare by (simp add: n get_tutorial_dir_base)
  then show base': "fst (get_tutorial_dir fs (install_name (''tutorial-'' @ x))) = ''./tutorial-'' @ x"
    by (simp only: p n)
  have "\<not> startswith (''./tutorial-'' @ x) ''./tutorial-tutorial-''"
    using bare by (simp add: startswith_def)
  then show "\<not> startswith (fst (get_tutorial_dir fs (install_name (''tutorial-'' @ x))))
              ''./tutorial-tutorial-''"
    unfolding base' .
  have "install_one w config tutorials (''tutorial-'' @ x) st
      = install_one w config tutorials x st"
    by (simp only: install_one_def p n)
  then show "install_loop w config tutorials ((''tutorial-'' @ x) # args) st
            = install_loop w config tutorials (x # args) st"
    by (simp only: install_loop.simps)
qed

theorem install_name_normalised_witness:
  "\<not> startswith ''b'' ''tutorial-''
   \<and> install_name ''b'' = ''b'' \<and> install_name (''tutorial-'' @ ''b'') = ''b''
   \<and> demo_catalog (install_name (''tutorial-'' @ ''b'')) = Some (local_demo ''b'')
   \<and> demo_catalog (install_name ''b'') = Some (local_demo ''b'')
   \<and> fst (get_tutorial_dir [] (install_name ''b'')) = ''./tutorial-'' @ ''b''
   \<and> fst (get_tutorial_dir [] (install_name (''tutorial-'' @ ''b''))) = ''./tutorial-'' @ ''b''
   \<and> install_loop failing_copy_world demo_config demo_catalog ((''tutorial-'' @ ''b'') # []) fresh_run
       = install_loop failing_copy_world demo_config demo_catalog (''b'' # []) fresh_run
   \<and> install_loop failing_copy_world demo_config demo_catalog (''b'' # []) fresh_run
       = (Returned None,
          \<lparr>files = [(''./tutorial-b'', Dir (Some []))],
           written = [Stdout (''Installing b (master)...'' @ nl),
                      Stdout (''Tutorial files installed in ./tutorial-b.'' @ nl),
                      Stdout (''Running setup in ./tutorial-b...'' @ nl)]\<rparr>)"
proof -
  have h: "\<not> startswith ''b'' ''tutorial-''" by (simp add: startswith_def)
  have c: "demo_catalog (install_name ''b'') = Some (local_demo ''b'')"
    by (simp add: demo_catalog_def install_name_def startswith_def)
  have r: "install_loop failing_copy_world demo_config demo_catalog (''b'' # []) fresh_run
       = (Returned None,
          \<lparr>files = [(''./tutorial-b'', Dir (Some []))],
           written = [Stdout (''Installing b (master)...'' @ nl),
                      Stdout (''Tutorial files installed in ./tutorial-b.'' @ nl),
                      Stdout (''Running setup in ./tutorial-b...'' @ nl)]\<rparr>)"
    by code_simp
  note t = install_name_normalised [of "''b''" "[]" "''b''" demo_catalog
        failing_copy_world demo_config "[]" fresh_run]
  have k: "demo_catalog (install_name (''tutorial-'' @ ''b'')) = Some (local_demo ''b'')"
    using t h c by metis
  show ?thesis using h t c r k by blast
qed

text \<open>
  The name \<open>tutorial-b\<close> begins with the prefix itself. The argument \<open>tutorial-b\<close> is
  looked up as \<open>b\<close>, found and installed; the argument \<open>tutorial-tutorial-b\<close> is looked
  up as \<open>tutorial-b\<close>, which the catalog does not hold, and the run returns 20. The
  destination base for the former is \<open>./tutorial-b\<close>, not \<open>./tutorial-tutorial-b\<close>.
\<close>

theorem prefixed_argument_counterexample:
  "install_name ''tutorial-b'' = ''b''
   \<and> install_name (''tutorial-'' @ ''tutorial-b'') = ''tutorial-b''
   \<and> demo_catalog (install_name ''tutorial-b'') = Some (local_demo ''b'')
   \<and> demo_catalog (install_name (''tutorial-'' @ ''tutorial-b'')) = None
   \<and> fst (get_tutorial_dir [] (install_name ''tutorial-b'')) = ''./tutorial-b''
   \<and> fst (install_loop failing_copy_world demo_config demo_catalog [''tutorial-b''] fresh_run)
       = Returned None
   \<and> fst (install_loop failing_copy_world demo_config demo_catalog
            [''tutorial-'' @ ''tutorial-b''] fresh_run)
       = Returned (Some 20)"
  by code_simp

section \<open>Properties of tutorial\_branches\<close>

text \<open>
  C8. \<open>tutorial_branches\<close> returns the empty list and opens no URL when its argument
  is empty or begins with \<open>file://\<close>. Otherwise it opens the URL: on an HTTP error it
  returns the empty list, and on a response it returns the names of the branch objects in
  the order of the array.
\<close>

theorem tutorial_branches_results:
  "(u = [] \<or> startswith u ''file://'' \<longrightarrow> tutorial_branches w u = (Inr [], []))
   \<and> (u \<noteq> [] \<and> \<not> startswith u ''file://'' \<and> branches_at w u = HTTPError
        \<longrightarrow> tutorial_branches w u = (Inr [], [u]))
   \<and> (u \<noteq> [] \<and> \<not> startswith u ''file://'' \<and> branches_at w u = Response bs h
        \<longrightarrow> tutorial_branches w u = (Inr (map branch_name bs), [u]))"
  by (auto simp: tutorial_branches_def)

theorem tutorial_branches_results_witness:
  "tutorial_branches paged_world [] = (Inr [], [])
   \<and> tutorial_branches paged_world ''file:///stash/tutorials/osg/x'' = (Inr [], [])
   \<and> tutorial_branches paged_world ''https://api.github.com/repos/B/tutorial-y/branches''
        = (Inr [], [''https://api.github.com/repos/B/tutorial-y/branches''])
   \<and> tutorial_branches paged_world ''https://api.github.com/repos/A/tutorial-x/branches''
        = (Inr [''master'', ''osg''], [''https://api.github.com/repos/A/tutorial-x/branches''])"
proof -
  have a: "startswith ''file:///stash/tutorials/osg/x'' ''file://''"
    by (simp add: startswith_def)
  have b: "\<not> startswith ''https://api.github.com/repos/B/tutorial-y/branches'' ''file://''"
    "\<not> startswith ''https://api.github.com/repos/A/tutorial-x/branches'' ''file://''"
    by (simp_all add: startswith_def)
  have c: "branches_at paged_world ''https://api.github.com/repos/B/tutorial-y/branches'' = HTTPError"
    by (simp add: paged_world_def)
  have d: "branches_at paged_world ''https://api.github.com/repos/A/tutorial-x/branches''
      = Response [\<lparr>branch_name = ''master''\<rparr>, \<lparr>branch_name = ''osg''\<rparr>] None"
    by (simp add: paged_world_def)
  show ?thesis
    using tutorial_branches_results [of "[]" paged_world]
      tutorial_branches_results [of "''file:///stash/tutorials/osg/x''" paged_world] a
      tutorial_branches_results [of "''https://api.github.com/repos/B/tutorial-y/branches''" paged_world] b c
      tutorial_branches_results [of "''https://api.github.com/repos/A/tutorial-x/branches''" paged_world
         "[\<lparr>branch_name = ''master''\<rparr>, \<lparr>branch_name = ''osg''\<rparr>]" None] d
    by simp
qed

section \<open>Properties of the remote fetch\<close>

lemma match_link_entry:
  assumes "link \<noteq> []" "CHR ''>'' \<notin> set link" "rel \<noteq> []" "dquote \<notin> set rel"
  shows "match_link (''<'' @ link @ ''>; rel='' @ [dquote] @ rel @ [dquote] @ rest)
     = Some (link, rel, dropWhile (\<lambda>c. c = CHR '' '') (dropWhile (\<lambda>c. c = CHR '','') rest))"
proof -
  let ?tail = "''>; rel='' @ [dquote] @ rel @ [dquote] @ rest"
  have t1: "takeWhile (\<lambda>c. c \<noteq> CHR ''>'') (link @ ?tail) = link"
    using assms(2) by (subst takeWhile_append2) auto
  have d1: "dropWhile (\<lambda>c. c \<noteq> CHR ''>'') (link @ ?tail) = ?tail"
    using assms(2) by (subst dropWhile_append2) auto
  have sw: "startswith ?tail (''>; rel='' @ [dquote])"
    by (simp add: startswith_def)
  have d8: "drop 8 ?tail = rel @ [dquote] @ rest" by simp
  have t2: "takeWhile (\<lambda>c. c \<noteq> dquote) (rel @ [dquote] @ rest) = rel"
    using assms(4) by (subst takeWhile_append2) auto
  have d2: "dropWhile (\<lambda>c. c \<noteq> dquote) (rel @ [dquote] @ rest) = dquote # rest"
    using assms(4) by (subst dropWhile_append2) auto
  have "match_link (CHR ''<'' # (link @ ?tail))
     = Some (link, rel, dropWhile (\<lambda>c. c = CHR '' '') (dropWhile (\<lambda>c. c = CHR '','') rest))"
    unfolding match_link_def list.case Let_def t1 d1 d8 t2 d2
    using assms(1,3) sw by simp
  then show ?thesis by simp
qed

lemma finditer_Nil: "finditer [] = []"
  by (simp add: finditer.simps)

lemma finditer_match:
  "match_link s = Some (link, rel, rest) \<Longrightarrow> finditer s = (link, rel) # finditer rest"
  by (subst finditer.simps) (auto simp: match_link_def)

lemma finditer_empty_last: "finditer (''<>; rel='' @ [dquote] @ ''last'' @ [dquote]) = []"
  by code_simp

lemma next_word: "''next'' \<noteq> []" "dquote \<notin> set ''next''" "''last'' \<noteq> []" "dquote \<notin> set ''last''"
  by (simp_all add: dquote_def)

lemma next_link_next_last:
  assumes "U1 \<noteq> []" "CHR ''>'' \<notin> set U1" "CHR ''>'' \<notin> set U2"
  shows "next_link (link_next_last U1 U2) = Some U1"
proof -
  let ?second = "''<'' @ U2 @ ''>; rel='' @ [dquote] @ ''last'' @ [dquote]"
  have "match_link (link_next_last U1 U2) = Some (U1, ''next'', ?second)"
    using match_link_entry [OF assms(1,2) next_word(1,2), of "'', <'' @ U2 @ ''>; rel='' @ [dquote] @ ''last'' @ [dquote]"]
    by (simp add: link_next_last_def)
  then have first: "finditer (link_next_last U1 U2) = (U1, ''next'') # finditer ?second"
    by (rule finditer_match)
  have "\<exists>ms. finditer ?second = ms \<and> (\<forall>(l, r) \<in> set ms. r \<noteq> ''next'')"
  proof (cases "U2 = []")
    case True
    then show ?thesis using finditer_empty_last by simp
  next
    case False
    have "match_link ?second = Some (U2, ''last'', [])"
      using match_link_entry [OF False assms(3) next_word(3,4), of "[]"] by simp
    then have "finditer ?second = [(U2, ''last'')]"
      using finditer_match finditer_Nil by metis
    then show ?thesis by simp
  qed
  then obtain ms where ms: "finditer ?second = ms" "\<forall>(l, r) \<in> set ms. r \<noteq> ''next''" by blast
  have keep: "foldl (\<lambda>nexturi (link, rel). if rel = ''next'' then Some link else nexturi) acc ms = acc"
    for acc :: "string option"
    using ms(2) by (induction ms arbitrary: acc) auto
  show ?thesis
    unfolding next_link_def first ms(1) by (simp add: keep)
qed

text \<open>
  C5. For the header \<open><U1>; rel="next", <U2>; rel="last"\<close>, where \<open>U1\<close> and \<open>U2\<close>
  are URLs (no \<open>>\<close> in them, \<open>U1\<close> not empty), the next page extracted is exactly
  \<open>U1\<close>, and the loop goes on with \<open>U1\<close> and the repositories of the page just read.
  When the response has no \<open>Link\<close> header, the loop for the collection ends after the
  page.
\<close>

theorem link_header_next_followed:
  assumes "U1 \<noteq> []" and "CHR ''>'' \<notin> set U1" and "CHR ''>'' \<notin> set U2" and "nexturi \<noteq> []"
  shows "next_link (link_next_last U1 U2) = Some U1
    \<and> (repos_at w nexturi = Response repos (Some (link_next_last U1 U2))
         \<longrightarrow> fetch_pages (Suc n) w pat (Some nexturi) tutorials
             = fetch_pages n w pat (Some U1) (foldl (add_repo pat) tutorials repos))
    \<and> (repos_at w nexturi = Response repos None
         \<longrightarrow> fetch_pages (Suc n) w pat (Some nexturi) tutorials
             = Some (Inr (foldl (add_repo pat) tutorials repos)))"
proof -
  have nl: "next_link (link_next_last U1 U2) = Some U1"
    using assms(1-3) by (rule next_link_next_last)
  have ne: "link_next_last U1 U2 \<noteq> []" by (simp add: link_next_last_def)
  show ?thesis using nl ne assms(4) by (simp add: Let_def)
qed

lemma first_page_nonempty: "first_page org \<noteq> []"
  by (simp add: first_page_def githuburl_def Let_def)

text \<open>
  C7. When the request for a page raises an HTTP error, the loop of the collection ends
  with the catalog as it is at that moment and raises nothing; the next collection is
  then fetched into that catalog. This is stated for the page at which the loop stands,
  for an error on the first page of a collection, and for an error on the page that a
  first page links to.
\<close>

theorem http_error_stops_collection:
  assumes "nexturi \<noteq> []" and "repos_at w nexturi = HTTPError"
  shows "fetch_pages (Suc n) w pat (Some nexturi) tutorials = Some (Inr tutorials)
    \<and> (org_pat path = (org, pat) \<and> first_page org = nexturi
         \<longrightarrow> remote_loop (Suc n) w (path # paths) tutorials = remote_loop (Suc n) w paths tutorials)
    \<and> (org_pat path = (org, pat) \<and> repos_at w (first_page org) = Response repos (Some h)
          \<and> h \<noteq> [] \<and> next_link h = Some nexturi
         \<longrightarrow> remote_loop (Suc (Suc n)) w (path # paths) before
             = remote_loop (Suc (Suc n)) w paths (foldl (add_repo pat) before repos))"
  using assms first_page_nonempty [of org] by (simp add: Let_def)

lemma paged_world_pages:
  "repos_at paged_world (first_page ''A'')
     = Response [repo_demo ''A'' ''tutorial-x''] (Some (link_next_last page2 page9))"
  "repos_at paged_world (first_page ''B'')
     = Response [repo_demo ''B'' ''tutorial-y'', repo_demo ''B'' ''other''] None"
  "repos_at paged_world page2 = HTTPError"
  by code_simp+

lemma page_urls: "page2 \<noteq> []" "CHR ''>'' \<notin> set page2" "CHR ''>'' \<notin> set page9"
  by (simp_all add: page2_def page9_def)

theorem link_header_next_followed_witness:
  "page2 \<noteq> [] \<and> CHR ''>'' \<notin> set page2 \<and> CHR ''>'' \<notin> set page9 \<and> first_page ''A'' \<noteq> []
   \<and> next_link (link_next_last page2 page9) = Some page2
   \<and> fetch_pages (Suc 1) paged_world ''tutorial-'' (Some (first_page ''A'')) Map.empty
       = fetch_pages 1 paged_world ''tutorial-'' (Some page2)
           (foldl (add_repo ''tutorial-'') Map.empty [repo_demo ''A'' ''tutorial-x''])
   \<and> fetch_pages (Suc 1) paged_world ''tutorial-'' (Some (first_page ''B'')) Map.empty
       = Some (Inr (foldl (add_repo ''tutorial-'') Map.empty
           [repo_demo ''B'' ''tutorial-y'', repo_demo ''B'' ''other'']))"
proof -
  note a = link_header_next_followed [OF page_urls first_page_nonempty [of "''A''"],
      where w = paged_world and repos = "[repo_demo ''A'' ''tutorial-x'']" and n = 1
        and pat = "''tutorial-''" and tutorials = Map.empty]
  note b = link_header_next_followed [OF page_urls first_page_nonempty [of "''B''"],
      where w = paged_world and repos = "[repo_demo ''B'' ''tutorial-y'', repo_demo ''B'' ''other'']"
        and n = 1 and pat = "''tutorial-''" and tutorials = Map.empty]
  show ?thesis
    using a b paged_world_pages(1,2) page_urls first_page_nonempty [of "''A''"] by blast
qed

theorem http_error_stops_collection_witness:
  "page2 \<noteq> [] \<and> repos_at paged_world page2 = HTTPError
   \<and> fetch_pages (Suc 0) paged_world ''tutorial-'' (Some page2)
        (foldl (add_repo ''tutorial-'') Map.empty [repo_demo ''A'' ''tutorial-x''])
       = Some (Inr (foldl (add_repo ''tutorial-'') Map.empty [repo_demo ''A'' ''tutorial-x'']))
   \<and> remote_loop (Suc (Suc 0)) paged_world (''A'' # [''B'']) Map.empty
       = remote_loop (Suc (Suc 0)) paged_world [''B'']
           (foldl (add_repo ''tutorial-'') Map.empty [repo_demo ''A'' ''tutorial-x''])"
proof -
  have op: "org_pat ''A'' = (''A'', ''tutorial-'')" by (simp add: org_pat_def)
  have ne: "link_next_last page2 page9 \<noteq> []" by (simp add: link_next_last_def)
  have nx: "next_link (link_next_last page2 page9) = Some page2"
    using page_urls by (rule next_link_next_last)
  note t = http_error_stops_collection [OF page_urls(1) paged_world_pages(3),
      where n = 0 and pat = "''tutorial-''"
        and tutorials = "foldl (add_repo ''tutorial-'') Map.empty [repo_demo ''A'' ''tutorial-x'']"
        and path = "''A''" and org = "''A''" and repos = "[repo_demo ''A'' ''tutorial-x'']"
        and h = "link_next_last page2 page9" and paths = "[''B'']" and before = Map.empty]
  show ?thesis
    using t op ne nx paged_world_pages(1,3) page_urls(1) by blast
qed

section \<open>Properties of the merged catalog\<close>

lemma scan_names_entry:
  "scan_names fs path names tutorials name =
     (if name \<in> set names \<and> isdir fs (join path name)
      then Some (local_entry fs (join path name)) else tutorials name)"
  by (induction names arbitrary: tutorials) (auto simp: Let_def)

lemma local_loop_append:
  "local_loop fs brand (ps @ qs) tutorials =
     (case local_loop fs brand ps tutorials of
        Inl e \<Rightarrow> Inl e
      | Inr t \<Rightarrow> local_loop fs brand qs t)"
  by (induction ps arbitrary: tutorials) (auto simp: Let_def split: sum.splits)

lemma local_loop_skip:
  "\<forall>q \<in> set qs. \<not> offers fs brand q name \<Longrightarrow> local_loop fs brand qs tutorials = Inr t \<Longrightarrow>
   t name = tutorials name"
proof (induction qs arbitrary: tutorials)
  case Nil
  then show ?case by simp
next
  case (Cons q qs)
  show ?case
  proof (cases "path_exists fs (join q brand)")
    case False
    then show ?thesis using Cons by (simp add: Let_def)
  next
    case True
    then obtain names where names: "listdir fs (join q brand) = Inr names"
      using Cons.prems(2) by (cases "listdir fs (join q brand)") (simp_all add: Let_def)
    then have "local_loop fs brand qs (scan_names fs (join q brand) names tutorials) = Inr t"
      using Cons.prems(2) True by (simp add: Let_def)
    then have "t name = scan_names fs (join q brand) names tutorials name"
      using Cons.IH Cons.prems(1) by simp
    moreover have "\<not> (name \<in> set names \<and> isdir fs (join (join q brand) name))"
      using Cons.prems(1) names by (simp add: offers_def)
    ultimately show ?thesis by (simp add: scan_names_entry)
  qed
qed

lemma local_loop_last_offer:
  assumes "local_loop fs brand (ps @ [p] @ qs) tutorials = Inr t"
    and "offers fs brand p name"
    and "\<forall>q \<in> set qs. \<not> offers fs brand q name"
  shows "t name = Some (local_entry fs (join (join p brand) name))"
proof -
  from assms(1) obtain t1 where t1: "local_loop fs brand (p # qs) t1 = Inr t"
    by (auto simp: local_loop_append split: sum.splits)
  from assms(2) obtain names where names: "listdir fs (join p brand) = Inr names"
    "name \<in> set names" "isdir fs (join (join p brand) name)"
    by (auto simp: offers_def split: sum.splits)
  then have "path_exists fs (join p brand)"
    by (auto simp: listdir_def path_exists_def split: option.splits)
  then have "local_loop fs brand qs (scan_names fs (join p brand) names t1) = Inr t"
    using t1 names(1) by (simp add: Let_def)
  then have "t name = scan_names fs (join p brand) names t1 name"
    using assms(3) local_loop_skip by blast
  then show ?thesis using names(2,3) by (simp add: scan_names_entry)
qed

text \<open>
  C1. In the catalog that \<open>get_tutorials\<close> returns, a name found by the scan of a local
  directory has the local entry, whole: the description read from the directory, the
  \<open>file://\<close> URL of the directory and the empty branches URL. Whatever the remote
  collections recorded under the name is overwritten, since every local path is scanned
  after the last collection. When several local paths hold the name, the entry is that
  of the last of them.
\<close>

theorem local_overrides_remote:
  assumes "get_tutorials n w fs config = Some (Inr tutorials)"
    and "localpaths config = ps @ [p] @ qs"
    and "offers fs (branding config) p name"
    and "\<forall>q \<in> set qs. \<not> offers fs (branding config) q name"
  shows "tutorials name = Some (local_entry fs (join (join p (branding config)) name))
    \<and> url (local_entry fs (join (join p (branding config)) name))
        = ''file://'' @ join (join p (branding config)) name
    \<and> branches_url (local_entry fs (join (join p (branding config)) name)) = []"
proof -
  from assms(1) obtain t0 where
    "local_loop fs (branding config) (localpaths config) t0 = Inr tutorials"
    by (auto simp: get_tutorials_def split: option.splits sum.splits)
  then have "tutorials name = Some (local_entry fs (join (join p (branding config)) name))"
    using assms(2-4) local_loop_last_offer by metis
  then show ?thesis by (simp add: local_entry_def)
qed

theorem local_overrides_remote_witness:
  "offers local_fs (branding paged_config) ''/stash/tutorials'' ''x''
   \<and> localpaths paged_config = [] @ [''/stash/tutorials''] @ []
   \<and> (\<exists>t. get_tutorials 2 paged_world local_fs paged_config = Some (Inr t)
          \<and> t ''x'' = Some \<lparr>description = Some ''Local copy of x'',
                              url = ''file:///stash/tutorials/osg/x'', branches_url = []\<rparr>)
   \<and> (\<exists>t0. remote_loop 2 paged_world (github_paths paged_config) Map.empty = Some (Inr t0)
          \<and> t0 ''x'' = Some \<lparr>description = None,
                              url = ''https://api.github.com/repos/A/tutorial-x'',
                              branches_url = ''https://api.github.com/repos/A/tutorial-x/branches''\<rparr>)"
proof -
  have o: "offers local_fs (branding paged_config) ''/stash/tutorials'' ''x''"
    by code_simp
  have l: "localpaths paged_config = [] @ [''/stash/tutorials''] @ []"
    by (simp add: paged_config_def)
  have none: "\<forall>q \<in> set []. \<not> offers local_fs (branding paged_config) q ''x''" by simp
  have "case get_tutorials 2 paged_world local_fs paged_config of
          Some (Inr t) \<Rightarrow> True | _ \<Rightarrow> False"
    by code_simp
  then obtain t where t: "get_tutorials 2 paged_world local_fs paged_config = Some (Inr t)"
    by (auto split: option.splits sum.splits)
  have e: "local_entry local_fs (join (join ''/stash/tutorials'' (branding paged_config)) ''x'')
      = \<lparr>description = Some ''Local copy of x'',
         url = ''file:///stash/tutorials/osg/x'', branches_url = []\<rparr>"
    by code_simp
  from local_overrides_remote [OF t l o none]
  have local: "t ''x'' = Some \<lparr>description = Some ''Local copy of x'',
         url = ''file:///stash/tutorials/osg/x'', branches_url = []\<rparr>"
    by (simp add: e)
  have "case remote_loop 2 paged_world (github_paths paged_config) Map.empty of
          Some (Inr t0) \<Rightarrow> t0 ''x'' = Some \<lparr>description = None,
                              url = ''https://api.github.com/repos/A/tutorial-x'',
                              branches_url = ''https://api.github.com/repos/A/tutorial-x/branches''\<rparr>
        | _ \<Rightarrow> False"
    by code_simp
  then have remote: "\<exists>t0. remote_loop 2 paged_world (github_paths paged_config) Map.empty = Some (Inr t0)
          \<and> t0 ''x'' = Some \<lparr>description = None,
                              url = ''https://api.github.com/repos/A/tutorial-x'',
                              branches_url = ''https://api.github.com/repos/A/tutorial-x/branches''\<rparr>"
    by (auto split: option.splits sum.splits)
  show ?thesis using o l t local remote by blast
qed

section \<open>The short name of a repository\<close>

text \<open>
  C6. The short name is computed with \<open>replace(pat, "")\<close>, which removes every
  occurrence of the prefix and not only the leading one. The repository
  \<open>tutorial-a-tutorial-b\<close> of a collection with the prefix \<open>tutorial-\<close> is recorded
  under \<open>a-b\<close>; the name with the leading prefix stripped, \<open>a-tutorial-b\<close>, is not
  in the catalog, although it is the name that \<open>main\<close> looks up for the argument
  \<open>tutorial-a-tutorial-b\<close>.
\<close>

theorem replace_removes_inner_prefix:
  "(case get_tutorials 1 slip_world [] \<lparr>branding = ''osg'', github_paths = [''A''], localpaths = []\<rparr> of
      Some (Inr t) \<Rightarrow>
        t ''a-b'' = Some \<lparr>description = None,
                          url = ''https://api.github.com/repos/A/tutorial-a-tutorial-b'',
                          branches_url = ''https://api.github.com/repos/A/tutorial-a-tutorial-b/branches''\<rparr>
        \<and> t ''a-tutorial-b'' = None
    | _ \<Rightarrow> False)
   \<and> install_name ''tutorial-a-tutorial-b'' = ''a-tutorial-b''"
  by code_simp

end
